theory Spec2Isabelle
  imports
    Main
    "HOL-Library.Word"
    "HOL-Library.AList"
    "HOL-Library.List_Lexorder"
    "HOL-Library.Multiset"
    "HOL-Library.Sorting_Algorithms"
begin

chapter \<open>config-differ: properties/YAML canonicalisation and diff\<close>

text \<open>
  A shallow embedding of the JavaScript core of config-differ: the LCS character differ
  (\<open>computeLCS\<close>, \<open>highlightDifferences\<close>), \<open>PropertyParser\<close> (\<open>parse\<close>,
  \<open>parsePropertyLine\<close>, \<open>sort\<close>), \<open>YAMLParser\<close> (\<open>parse\<close>, \<open>parseLevel\<close>,
  \<open>sortRecursively\<close>, \<open>flatten\<close>) and \<open>DiffEngine\<close> (\<open>compare\<close>, \<open>propertiesToMap\<close>,
  \<open>yamlToMap\<close>, \<open>formatLine\<close>). The repository holds two copies of the script. The
  later one, with its guards against \<open>null\<close> and its has-key tests, is the reference;
  the copy \<open>app.js\<close> behaves differently on strings and parsed documents only in
  \<open>DiffEngine.compare\<close>, which is embedded a second time with the suffix \<open>_app_js\<close>.
  Inputs are strings, entry arrays and parsed objects, as the controller passes them.
\<close>

section \<open>JavaScript values\<close>

text \<open>
  A JavaScript string is a sequence of UTF-16 code units; indexing, \<open>length\<close>,
  \<open>===\<close> and the default \<open>Array.prototype.sort\<close> order all work on code units.
  \<open>js\<close> embeds a Latin-1 literal.
\<close>

type_synonym codeunit = "16 word"
type_synonym jsstring = "codeunit list"

definition js :: "string \<Rightarrow> jsstring" where
  "js s = map of_char s"

text \<open>\<open>x || ''\<close> on a value that is a string or \<open>undefined\<close>/\<open>null\<close> (\<open>None\<close>):
  the empty string is the only falsy string and is replaced by itself.\<close>

definition orEmpty :: "jsstring option \<Rightarrow> jsstring" where
  "orEmpty x = (case x of None \<Rightarrow> [] | Some s \<Rightarrow> (if s = [] then [] else s))"

text \<open>\<open>xs[i]\<close> on an array: \<open>undefined\<close> (\<open>None\<close>) out of range.\<close>

definition array_get :: "'a list \<Rightarrow> nat \<Rightarrow> 'a option" where
  "array_get xs i = (if i < length xs then Some (xs ! i) else None)"

text \<open>The one exception the embedded code could raise: a method call on \<open>undefined\<close>.\<close>

datatype error = TypeError

text \<open>
  \<open>String.prototype.trim\<close>, \<open>trimEnd\<close> and the regular-expression class \<open>\s\<close>
  share one character set: ECMAScript WhiteSpace and LineTerminator. The pattern \<open>.\<close>
  (without the \<open>s\<close> flag) matches every code unit except the line terminators.
\<close>

definition isWhiteSpace :: "codeunit \<Rightarrow> bool" where
  "isWhiteSpace c \<longleftrightarrow>
     c = 0x09 \<or> c = 0x0A \<or> c = 0x0B \<or> c = 0x0C \<or> c = 0x0D \<or> c = 0x20 \<or> c = 0xA0 \<or>
     c = 0x1680 \<or> (0x2000 \<le> c \<and> c \<le> 0x200A) \<or> c = 0x2028 \<or> c = 0x2029 \<or>
     c = 0x202F \<or> c = 0x205F \<or> c = 0x3000 \<or> c = 0xFEFF"

definition isLineTerminator :: "codeunit \<Rightarrow> bool" where
  "isLineTerminator c \<longleftrightarrow> c = 0x0A \<or> c = 0x0D \<or> c = 0x2028 \<or> c = 0x2029"

definition trimStart :: "jsstring \<Rightarrow> jsstring" where
  "trimStart s = dropWhile isWhiteSpace s"

definition trimEnd :: "jsstring \<Rightarrow> jsstring" where
  "trimEnd s = rev (dropWhile isWhiteSpace (rev s))"

definition trim :: "jsstring \<Rightarrow> jsstring" where
  "trim s = trimEnd (trimStart s)"

definition startsWith :: "jsstring \<Rightarrow> jsstring \<Rightarrow> bool" where
  "startsWith s p \<longleftrightarrow> take (length p) s = p"

definition endsWith :: "jsstring \<Rightarrow> jsstring \<Rightarrow> bool" where
  "endsWith s p \<longleftrightarrow> length p \<le> length s \<and> drop (length s - length p) s = p"

text \<open>\<open>text.split('\n')\<close>: always at least one piece.\<close>

fun split_lines :: "jsstring \<Rightarrow> jsstring list" where
  "split_lines [] = [[]]"
| "split_lines (c # cs) =
     (if c = 0x0A then [] # split_lines cs
      else (case split_lines cs of
              [] \<Rightarrow> [[c]]
            | l # ls \<Rightarrow> (c # l) # ls))"

text \<open>\<open>line.search(/\S/)\<close>: index of the first non-whitespace code unit, or \<open>-1\<close>.\<close>

definition search_nonspace :: "jsstring \<Rightarrow> int" where
  "search_nonspace s =
     (let n = length (takeWhile isWhiteSpace s)
      in if n < length s then int n else - 1)"

text \<open>\<open>String(n)\<close> for a non-negative integer, as used in a template literal.\<close>

definition digit :: "nat \<Rightarrow> codeunit" where
  "digit d = of_nat (48 + d)"

fun decimal :: "nat \<Rightarrow> jsstring" where
  "decimal n = (if n < 10 then [digit n] else decimal (n div 10) @ [digit (n mod 10)])"

declare decimal.simps [simp del]

section \<open>LCS character differ\<close>

text \<open>One assignment \<open>dp[i][j] = ...\<close> of the inner loop of \<open>computeLCS\<close>.\<close>

definition lcs_cell :: "jsstring \<Rightarrow> jsstring \<Rightarrow> nat \<Rightarrow> nat \<Rightarrow> nat list list \<Rightarrow> nat list list" where
  "lcs_cell str1 str2 i j dp =
     (if str1 ! (i - 1) = str2 ! (j - 1)
      then dp[i := (dp ! i)[j := dp ! (i - 1) ! (j - 1) + 1]]
      else dp[i := (dp ! i)[j := max (dp ! (i - 1) ! j) (dp ! i ! (j - 1))]])"

text \<open>\<open>computeLCS(str1, str2)\<close>: the \<open>(m+1) \<times> (n+1)\<close> table filled by two nested
  \<open>for\<close> loops, \<open>i\<close> from 1 to \<open>m\<close> and \<open>j\<close> from 1 to \<open>n\<close>.\<close>

definition computeLCS :: "jsstring option \<Rightarrow> jsstring option \<Rightarrow> nat list list" where
  "computeLCS s1 s2 =
     (let str1 = orEmpty s1; str2 = orEmpty s2;
          m = length str1; n = length str2;
          dp = replicate (m + 1) (replicate (n + 1) 0)
      in fold (\<lambda>i dp. fold (\<lambda>j dp. lcs_cell str1 str2 i j dp) [1..<n + 1] dp) [1..<m + 1] dp)"

datatype role = UnchangedSeg | AddedSeg | RemovedSeg

record segment =
  seg_text :: codeunit
  seg_type :: role

text \<open>The \<open>while (i > 0 || j > 0)\<close> loop of \<open>highlightDifferences\<close>; \<open>unshift\<close> is
  \<open>#\<close>. The source's last \<open>else if\<close> has no \<open>else\<close>: an iteration that took none
  of the three branches would repeat with the same state.\<close>

function highlight_loop ::
  "jsstring \<Rightarrow> jsstring \<Rightarrow> nat list list \<Rightarrow> nat \<Rightarrow> nat \<Rightarrow> segment list \<Rightarrow> segment list
     \<Rightarrow> segment list \<times> segment list" where
  "highlight_loop str1 str2 dp i j left right =
     (if i > 0 \<or> j > 0 then
        (if i > 0 \<and> j > 0 \<and> str1 ! (i - 1) = str2 ! (j - 1) then
           highlight_loop str1 str2 dp (i - 1) (j - 1)
             (\<lparr>seg_text = str1 ! (i - 1), seg_type = UnchangedSeg\<rparr> # left)
             (\<lparr>seg_text = str2 ! (j - 1), seg_type = UnchangedSeg\<rparr> # right)
         else if j > 0 \<and> (i = 0 \<or> dp ! i ! (j - 1) \<ge> dp ! (i - 1) ! j) then
           highlight_loop str1 str2 dp i (j - 1) left
             (\<lparr>seg_text = str2 ! (j - 1), seg_type = AddedSeg\<rparr> # right)
         else if i > 0 then
           highlight_loop str1 str2 dp (i - 1) j
             (\<lparr>seg_text = str1 ! (i - 1), seg_type = RemovedSeg\<rparr> # left) right
         else highlight_loop str1 str2 dp i j left right)
      else (left, right))"
  by pat_completeness auto
termination
  by (relation "measure (\<lambda>(str1, str2, dp, i, j, left, right). i + j)") auto

declare highlight_loop.simps [simp del]

definition highlightDifferences ::
  "jsstring option \<Rightarrow> jsstring option \<Rightarrow> segment list \<times> segment list" where
  "highlightDifferences s1 s2 =
     (let str1 = orEmpty s1; str2 = orEmpty s2;
          dp = computeLCS (Some str1) (Some str2)
      in highlight_loop str1 str2 dp (length str1) (length str2) [] [])"

text \<open>Reading a segment sequence back: the characters of the segments whose role is in
  \<open>rs\<close>, in order, and the number of unchanged segments.\<close>

definition keep_text :: "role list \<Rightarrow> segment list \<Rightarrow> jsstring" where
  "keep_text rs segs = map seg_text (filter (\<lambda>s. seg_type s \<in> set rs) segs)"

definition unchanged_count :: "segment list \<Rightarrow> nat" where
  "unchanged_count segs = length (filter (\<lambda>s. seg_type s = UnchangedSeg) segs)"

text \<open>The LCS recurrence on prefix lengths, and the invariant of the two loops of
  \<open>computeLCS\<close>: the table has its shape, the cells of the rows before \<open>i\<close> and of row
  \<open>i\<close> before column \<open>J\<close> hold the recurrence, and the other cells are still zero.\<close>

fun lcsLen :: "jsstring \<Rightarrow> jsstring \<Rightarrow> nat \<Rightarrow> nat \<Rightarrow> nat" where
  "lcsLen a b 0 j = 0"
| "lcsLen a b (Suc i) 0 = 0"
| "lcsLen a b (Suc i) (Suc j) =
     (if a ! i = b ! j then lcsLen a b i j + 1
      else max (lcsLen a b i (Suc j)) (lcsLen a b (Suc i) j))"

definition table_upto :: "jsstring \<Rightarrow> jsstring \<Rightarrow> nat \<Rightarrow> nat \<Rightarrow> nat list list \<Rightarrow> bool" where
  "table_upto a b i J dp \<longleftrightarrow>
     length dp = length a + 1 \<and>
     (\<forall>r \<le> length a. length (dp ! r) = length b + 1) \<and>
     (\<forall>r \<le> length a. \<forall>c \<le> length b.
        dp ! r ! c = (if r < i \<or> (r = i \<and> c < J) then lcsLen a b r c else 0))"

section \<open>PropertyParser\<close>

text \<open>An entry object: \<open>{type: 'blank', line}\<close>, \<open>{type: 'comment', line}\<close> or
  \<open>{type: 'property', key, value, line}\<close>.\<close>

datatype entry =
    Blank jsstring
  | Comment jsstring
  | Property jsstring jsstring jsstring

text \<open>The continuation loop of \<open>parsePropertyLine\<close>: while the right-trimmed line ends
  with a backslash and a next physical line exists, drop the backslash and append that
  line. Returns \<open>(fullLine, currentIndex)\<close>.\<close>

function continuation_loop :: "jsstring list \<Rightarrow> jsstring \<Rightarrow> nat \<Rightarrow> jsstring \<times> nat" where
  "continuation_loop allLines fullLine currentIndex =
     (if endsWith (trimEnd fullLine) [0x5C] \<and> currentIndex + 1 < length allLines then
        continuation_loop allLines
          (butlast (trimEnd fullLine) @
             (case array_get allLines (currentIndex + 1) of
                None \<Rightarrow> js ''undefined''
              | Some next_line \<Rightarrow> next_line))
          (currentIndex + 1)
      else (fullLine, currentIndex))"
  by pat_completeness auto
termination
  by (relation "measure (\<lambda>(allLines, fullLine, currentIndex). length allLines - currentIndex)") auto

declare continuation_loop.simps [simp del]

text \<open>\<open>fullLine.match(/^([^=:\s]+)\s*[:=]\s*(.*)$/)\<close>, returning the two groups. The
  greedy first group is the longest prefix free of \<open>=\<close>, \<open>:\<close> and whitespace; after
  optional whitespace a separator must follow; the second group starts after the
  whitespace behind the separator and must reach the end of the string without crossing
  a line terminator.\<close>

definition isKeyChar :: "codeunit \<Rightarrow> bool" where
  "isKeyChar c \<longleftrightarrow> c \<noteq> 0x3D \<and> c \<noteq> 0x3A \<and> \<not> isWhiteSpace c"

definition separatorMatch :: "jsstring \<Rightarrow> (jsstring \<times> jsstring) option" where
  "separatorMatch s =
     (let g1 = takeWhile isKeyChar s;
          after_key = dropWhile isWhiteSpace (dropWhile isKeyChar s)
      in if g1 = [] then None
         else (case after_key of
                 [] \<Rightarrow> None
               | c # after_sep \<Rightarrow>
                   if c = 0x3A \<or> c = 0x3D then
                     (let g2 = dropWhile isWhiteSpace after_sep
                      in if list_ex isLineTerminator g2 then None else Some (g1, g2))
                   else None))"

text \<open>\<open>fullLine.match(/^(\S+)\s+(.+)$/)\<close>. The first group is the longest
  whitespace-free prefix. The greedy \<open>\s+\<close> takes the whole whitespace run when a
  non-empty rest follows; when the string ends in that run, backtracking leaves its last
  code unit to the second group.\<close>

definition spaceMatch :: "jsstring \<Rightarrow> (jsstring \<times> jsstring) option" where
  "spaceMatch s =
     (let g1 = takeWhile (\<lambda>c. \<not> isWhiteSpace c) s;
          after_key = dropWhile (\<lambda>c. \<not> isWhiteSpace c) s;
          ws = takeWhile isWhiteSpace after_key;
          rest = dropWhile isWhiteSpace after_key
      in if g1 = [] \<or> ws = [] then None
         else if rest \<noteq> [] then
           (if list_ex isLineTerminator rest then None else Some (g1, rest))
         else if length ws \<ge> 2 \<and> \<not> isLineTerminator (last ws) then Some (g1, [last ws])
         else None)"

record propertyLine =
  pl_key :: jsstring
  pl_value :: jsstring
  pl_fullLine :: jsstring
  pl_nextIndex :: nat

definition parsePropertyLine :: "jsstring \<Rightarrow> jsstring list \<Rightarrow> nat \<Rightarrow> propertyLine option" where
  "parsePropertyLine line allLines startIndex =
     (let (fullLine, currentIndex) = continuation_loop allLines line startIndex
      in (case separatorMatch fullLine of
            Some (g1, g2) \<Rightarrow>
              Some \<lparr>pl_key = trim g1, pl_value = trim g2,
                    pl_fullLine = fullLine, pl_nextIndex = currentIndex + 1\<rparr>
          | None \<Rightarrow>
              (case spaceMatch fullLine of
                 Some (g1, g2) \<Rightarrow>
                   Some \<lparr>pl_key = trim g1, pl_value = trim g2,
                         pl_fullLine = fullLine, pl_nextIndex = currentIndex + 1\<rparr>
               | None \<Rightarrow> None)))"

text \<open>The \<open>while (i < lines.length)\<close> loop of \<open>parse\<close>. \<open>lines[i].trim()\<close> on a
  missing element would throw a TypeError.\<close>

function parse_loop :: "jsstring list \<Rightarrow> nat \<Rightarrow> entry list \<Rightarrow> error + entry list" where
  "parse_loop lines i entries =
     (if i < length lines then
        (case array_get lines i of
           None \<Rightarrow> Inl TypeError
         | Some line \<Rightarrow>
             if trim line = [] then
               parse_loop lines (i + 1) (entries @ [Blank []])
             else if startsWith (trim line) (js ''#'') \<or> startsWith (trim line) (js ''!'') then
               parse_loop lines (i + 1) (entries @ [Comment line])
             else
               (case parsePropertyLine line lines i of
                  Some result \<Rightarrow>
                    parse_loop lines (pl_nextIndex result)
                      (entries @ [Property (pl_key result) (pl_value result) (pl_fullLine result)])
                | None \<Rightarrow> parse_loop lines (i + 1) (entries @ [Comment line])))
      else Inr entries)"
  by pat_completeness auto
termination
proof (relation "measure (\<lambda>(lines, i, entries). length lines - i)")
  show "wf (measure (\<lambda>(lines, i, entries). length lines - i))"
    by simp
next
  fix lines :: "jsstring list" and i :: nat and entries :: "entry list"
    and line :: jsstring and result :: propertyLine
  assume i: "i < length lines" and res: "parsePropertyLine line lines i = Some result"
  have mono: "currentIndex \<le> snd (continuation_loop allLines fullLine currentIndex)"
    for allLines fullLine currentIndex
  proof (induction allLines fullLine currentIndex rule: continuation_loop.induct)
    case (1 allLines fullLine currentIndex)
    show ?case
    proof (cases "endsWith (trimEnd fullLine) [0x5C] \<and> currentIndex + 1 < length allLines")
      case True
      with "1.IH" show ?thesis
        by (subst continuation_loop.simps) (auto simp: Suc_leD)
    next
      case False
      then show ?thesis
        by (subst continuation_loop.simps) auto
    qed
  qed
  from res have "pl_nextIndex result = snd (continuation_loop lines line i) + 1"
    by (auto simp: parsePropertyLine_def split: prod.splits option.splits)
  with mono [of i lines line] have "i < pl_nextIndex result"
    by simp
  with i show "((lines, pl_nextIndex result,
      entries @ [Property (pl_key result) (pl_value result) (pl_fullLine result)]),
      (lines, i, entries)) \<in> measure (\<lambda>(lines, i, entries). length lines - i)"
    by simp
qed auto

declare parse_loop.simps [simp del]

text \<open>\<open>PropertyParser.parse(text)\<close> for a string \<open>text\<close>.\<close>

definition PropertyParser_parse :: "jsstring \<Rightarrow> error + entry list" where
  "PropertyParser_parse text = parse_loop (split_lines text) 0 []"

text \<open>
  How a list of physical lines is accounted for by a list of entries, in order: a blank
  line by a blank entry, a line kept as it is by a comment entry that carries it, and a
  non-blank line together with the continuation lines joined to it by one property entry.
\<close>

inductive accounts :: "jsstring list \<Rightarrow> entry list \<Rightarrow> bool" where
  accounts_nil: "accounts [] []"
| accounts_blank:
    "trim line = [] \<Longrightarrow> accounts rest es \<Longrightarrow> accounts (line # rest) (Blank [] # es)"
| accounts_comment:
    "trim line \<noteq> [] \<Longrightarrow> accounts rest es \<Longrightarrow> accounts (line # rest) (Comment line # es)"
| accounts_property:
    "trim line \<noteq> [] \<Longrightarrow> accounts rest es \<Longrightarrow>
     accounts (line # continued @ rest) (Property k v full # es)"

text \<open>The objects pushed onto \<open>properties\<close> by \<open>sort\<close>.\<close>

record propertyGroup =
  pg_key :: jsstring
  pg_value :: jsstring
  pg_comments :: "entry list"
  pg_entry :: entry

text \<open>The grouping loop of \<open>sort\<close>, on the state \<open>(properties, pendingComments)\<close>.\<close>

fun group_step :: "entry \<Rightarrow> propertyGroup list \<times> entry list \<Rightarrow> propertyGroup list \<times> entry list" where
  "group_step (Comment l) (properties, pendingComments) =
     (properties, pendingComments @ [Comment l])"
| "group_step (Property k v l) (properties, pendingComments) =
     (properties @ [\<lparr>pg_key = k, pg_value = v, pg_comments = pendingComments,
                      pg_entry = Property k v l\<rparr>], [])"
| "group_step (Blank l) (properties, pendingComments) =
     (properties, pendingComments @ [Blank l])"

text \<open>The reconstruction loop: \<open>result.push(...prop.comments); result.push(prop.entry)\<close>.\<close>

definition emit_groups :: "propertyGroup list \<Rightarrow> entry list" where
  "emit_groups properties = fold (\<lambda>prop result. result @ pg_comments prop @ [pg_entry prop]) properties []"

text \<open>\<open>PropertyParser.sort(entries)\<close>. \<open>String.prototype.localeCompare\<close> is supplied by
  the host and its collation by the locale; it is a parameter here, a consistent
  comparison (a total preorder on strings), and \<open>Array.prototype.sort\<close> with a consistent
  comparison is the stable sort.\<close>

definition PropertyParser_sort :: "jsstring comparator \<Rightarrow> entry list \<Rightarrow> entry list" where
  "PropertyParser_sort localeCompare entries =
     (let (properties, pendingComments) = fold group_step entries ([], []);
          sorted_properties = Sorting_Algorithms.sort (key pg_key localeCompare) properties
      in emit_groups sorted_properties @ pendingComments)"

fun isProperty :: "entry \<Rightarrow> bool" where
  "isProperty (Property k v l) = True"
| "isProperty (Comment l) = False"
| "isProperty (Blank l) = False"

text \<open>What one group contributes to the output of \<open>sort\<close>, and the shape of the groups
  that the grouping loop builds: comments and blanks only in \<open>comments\<close>, and \<open>key\<close> and
  \<open>value\<close> copied from the property entry.\<close>

definition group_entries :: "propertyGroup \<Rightarrow> entry list" where
  "group_entries prop = pg_comments prop @ [pg_entry prop]"

definition group_ok :: "propertyGroup \<Rightarrow> bool" where
  "group_ok prop \<longleftrightarrow>
     list_all (\<lambda>e. \<not> isProperty e) (pg_comments prop) \<and>
     (case pg_entry prop of
        Property k v l \<Rightarrow> pg_key prop = k \<and> pg_value prop = v
      | Comment l \<Rightarrow> False
      | Blank l \<Rightarrow> False)"

section \<open>YAMLParser\<close>

text \<open>
  A parsed node is \<open>{_value, _comments}\<close> where \<open>_value\<close> is a string (\<open>Leaf\<close>) or a
  nested object (\<open>Branch\<close>). An object is the list of its own enumerable properties in
  the order \<open>Object.keys\<close> reports them.
\<close>

datatype ynode =
    Leaf jsstring "jsstring list"
  | Branch "(jsstring \<times> ynode) list" "jsstring list"

type_synonym yobj = "(jsstring \<times> ynode) list"

text \<open>
  Property order of an ordinary object: array-index keys first, in ascending numeric
  order, then the other string keys in creation order. An array index is a canonical
  numeric string (it is what \<open>String(n)\<close> prints) with \<open>n \<le> 2\<^sup>3\<^sup>2 - 2\<close>.
\<close>

definition isDigit :: "codeunit \<Rightarrow> bool" where
  "isDigit c \<longleftrightarrow> 0x30 \<le> c \<and> c \<le> 0x39"

definition parse_decimal :: "jsstring \<Rightarrow> nat" where
  "parse_decimal s = fold (\<lambda>c n. 10 * n + (unat c - 48)) s 0"

definition arrayIndex :: "jsstring \<Rightarrow> nat option" where
  "arrayIndex k =
     (if k \<noteq> [] \<and> list_all isDigit k \<and> decimal (parse_decimal k) = k \<and>
         parse_decimal k \<le> 4294967294
      then Some (parse_decimal k) else None)"

definition index_before :: "nat \<Rightarrow> jsstring \<times> ynode \<Rightarrow> bool" where
  "index_before n p = (case arrayIndex (fst p) of None \<Rightarrow> False | Some n' \<Rightarrow> n' < n)"

text \<open>
  The assignment \<open>obj[key] = node\<close> on an object created by \<open>{}\<close>. The key
  \<open>__proto__\<close> reaches the inherited setter of \<open>Object.prototype\<close>, which replaces the
  prototype (the assigned value is always an object) and creates no own property. An
  existing own property keeps its position; a new one is placed by the order above.
\<close>

definition obj_set :: "yobj \<Rightarrow> jsstring \<Rightarrow> ynode \<Rightarrow> yobj" where
  "obj_set obj k node =
     (if k = js ''__proto__'' then obj
      else if map_of obj k \<noteq> None then AList.update k node obj
      else (case arrayIndex k of
              None \<Rightarrow> obj @ [(k, node)]
            | Some n \<Rightarrow> takeWhile (index_before n) obj @ [(k, node)] @ dropWhile (index_before n) obj))"

text \<open>\<open>trimmed.match(/^([^:#]+):\s*(.*)$/)\<close>, returning the two groups: the longest
  prefix free of \<open>:\<close> and \<open>#\<close>, which a colon must follow; the second group as in
  \<open>separatorMatch\<close>.\<close>

definition keyValueMatch :: "jsstring \<Rightarrow> (jsstring \<times> jsstring) option" where
  "keyValueMatch s =
     (let g1 = takeWhile (\<lambda>c. c \<noteq> 0x3A \<and> c \<noteq> 0x23) s;
          after_key = dropWhile (\<lambda>c. c \<noteq> 0x3A \<and> c \<noteq> 0x23) s
      in if g1 = [] then None
         else (case after_key of
                 [] \<Rightarrow> None
               | c # after_colon \<Rightarrow>
                   if c = 0x3A then
                     (let g2 = dropWhile isWhiteSpace after_colon
                      in if list_ex isLineTerminator g2 then None else Some (g1, g2))
                   else None))"

text \<open>
  \<open>parseLevel(baseIndent)\<close>. The parser object's fields \<open>this.lines\<close> (never assigned
  during the parse) and \<open>this.currentLine\<close> are passed explicitly, and so are the loop
  variables \<open>obj\<close> and \<open>pendingComments\<close>; the result is the returned object with the
  final \<open>this.currentLine\<close>. \<open>None\<close> stands for a call that does not return.
\<close>

partial_function (option) parseLevel ::
  "jsstring list \<Rightarrow> int \<Rightarrow> nat \<Rightarrow> yobj \<Rightarrow> jsstring list \<Rightarrow> (yobj \<times> nat) option" where
  "parseLevel lines baseIndent currentLine obj pendingComments =
     (if currentLine < length lines then
        (let line = lines ! currentLine; trimmed = trim line in
         if trimmed = [] then
           parseLevel lines baseIndent (currentLine + 1) obj pendingComments
         else if startsWith trimmed (js ''#'') then
           parseLevel lines baseIndent (currentLine + 1) obj (pendingComments @ [trimmed])
         else
           (let indent = search_nonspace line in
            if indent = - 1 then
              parseLevel lines baseIndent (currentLine + 1) obj pendingComments
            else if indent < baseIndent then Some (obj, currentLine)
            else if indent > baseIndent \<and> baseIndent \<noteq> 0 then Some (obj, currentLine)
            else
              (case keyValueMatch trimmed of
                 Some (g1, g2) \<Rightarrow>
                   (let key = trim g1; val = trim g2 in
                    if currentLine + 1 < length lines then
                      (let nextLine = lines ! (currentLine + 1);
                           nextIndent = search_nonspace nextLine in
                       if nextIndent > indent \<and> trim nextLine \<noteq> [] then
                         Option.bind (parseLevel lines nextIndent (currentLine + 1) [] [])
                           (\<lambda>nested.
                              parseLevel lines baseIndent (snd nested)
                                (obj_set obj key (Branch (fst nested) pendingComments)) [])
                       else if val = [] then
                         parseLevel lines baseIndent (currentLine + 1)
                           (obj_set obj key (Leaf [] pendingComments)) []
                       else
                         parseLevel lines baseIndent (currentLine + 1)
                           (obj_set obj key (Leaf val pendingComments)) [])
                    else
                      parseLevel lines baseIndent (currentLine + 1)
                        (obj_set obj key (Leaf val pendingComments)) [])
               | None \<Rightarrow>
                   if startsWith trimmed (js ''-'') then
                     parseLevel lines baseIndent (currentLine + 1)
                       (obj_set obj (js ''_array_'' @ decimal currentLine)
                          (Leaf (trim (drop 1 trimmed)) pendingComments)) []
                   else
                     parseLevel lines baseIndent (currentLine + 1) obj pendingComments)))
      else Some (obj, currentLine))"

declare parseLevel.simps [code]

text \<open>\<open>YAMLParser.parse(text)\<close> for a string \<open>text\<close>.\<close>

definition YAMLParser_parse :: "jsstring \<Rightarrow> yobj option" where
  "YAMLParser_parse text = map_option fst (parseLevel (split_lines text) 0 0 [] [])"

text \<open>
  \<open>sortRecursively(obj)\<close> on a parsed object: every item is a node, so the branch for
  items without \<open>_value\<close> is not reached; \<open>obj[key]\<close> for a key of \<open>Object.keys(obj)\<close>
  is the own property. \<open>Object.keys(obj).sort()\<close> is the default sort, by code units.
\<close>

function sortRecursively :: "yobj \<Rightarrow> yobj" where
  "sortRecursively obj =
     fold (\<lambda>key sorted.
             (case map_of obj key of
                None \<Rightarrow> sorted
              | Some (Branch children comments) \<Rightarrow>
                  obj_set sorted key (Branch (sortRecursively children) comments)
              | Some (Leaf v comments) \<Rightarrow> obj_set sorted key (Leaf v comments)))
       (sort_key (\<lambda>k. k) (map fst obj)) []"
  by pat_completeness auto
termination
proof (relation "measure (size_list (\<lambda>p. size (snd p)))")
  show "wf (measure (size_list (\<lambda>p. size (snd p))))"
    by simp
next
  fix obj :: yobj and key :: jsstring and sorted :: yobj and node :: ynode
    and children :: yobj and comments :: "jsstring list"
  assume "map_of obj key = Some node" and node: "node = Branch children comments"
  then have mem: "(key, Branch children comments) \<in> set obj"
    by (simp add: map_of_SomeD)
  have "size_list (\<lambda>p. size (snd p)) children < size (Branch children comments)"
    by (induction children) auto
  also have "\<dots> \<le> size_list (\<lambda>p. size (snd p)) obj"
    using mem by (induction obj) auto
  finally show "(children, obj) \<in> measure (size_list (\<lambda>p. size (snd p)))"
    by simp
qed

declare sortRecursively.simps [simp del]

text \<open>What \<open>sortRecursively\<close> stores for one item, and the key order of the objects
  it builds: the array-index keys in ascending numeric order, then the other keys in
  ascending code-unit order, none of them \<open>__proto__\<close>.\<close>

fun sortItem :: "ynode \<Rightarrow> ynode" where
  "sortItem (Branch children comments) = Branch (sortRecursively children) comments"
| "sortItem (Leaf v comments) = Leaf v comments"

definition index_lt :: "jsstring \<Rightarrow> jsstring \<Rightarrow> bool" where
  "index_lt a b \<longleftrightarrow>
     (case arrayIndex a of
        None \<Rightarrow> False
      | Some m \<Rightarrow> (case arrayIndex b of None \<Rightarrow> False | Some n \<Rightarrow> m < n))"

definition canonical_keys :: "jsstring list \<Rightarrow> bool" where
  "canonical_keys ks \<longleftrightarrow>
     js ''__proto__'' \<notin> set ks \<and>
     (\<exists>I N. ks = I @ N \<and> list_all (\<lambda>k. arrayIndex k \<noteq> None) I \<and>
        list_all (\<lambda>k. arrayIndex k = None) N \<and> sorted_wrt index_lt I \<and> sorted_wrt (<) N)"

text \<open>The entries \<open>{key, value, comments}\<close> produced by \<open>flatten\<close>.\<close>

record flatEntry =
  fe_key :: jsstring
  fe_value :: jsstring
  fe_comments :: "jsstring list"

text \<open>\<open>flatten(obj, prefix)\<close> on a parsed object, the \<open>for\<close> loop over
  \<open>Object.keys(obj)\<close> as recursion on the property list. \<open>String(item._value)\<close> of an
  empty nested object is \<open>[object Object]\<close>.\<close>

function flatten :: "yobj \<Rightarrow> jsstring \<Rightarrow> flatEntry list" where
  "flatten [] prefix = []"
| "flatten ((k, item) # rest) prefix =
     (let fullKey = (if prefix \<noteq> [] then prefix @ js ''.'' @ k else k)
      in (case item of
            Branch children comments \<Rightarrow>
              if length children > 0 then flatten children fullKey
              else [\<lparr>fe_key = fullKey, fe_value = js ''[object Object]'', fe_comments = comments\<rparr>]
          | Leaf v comments \<Rightarrow> [\<lparr>fe_key = fullKey, fe_value = v, fe_comments = comments\<rparr>])
         @ flatten rest prefix)"
  by pat_completeness auto
termination
  by (relation "measure (\<lambda>(obj, prefix). size_list (size_prod (\<lambda>k. 0) size) obj)") auto

section \<open>DiffEngine\<close>

text \<open>A \<open>Map\<close> from strings to strings, as the list of its entries in insertion order:
  \<open>set\<close> replaces the value of an existing key in place and appends a new key.\<close>

type_synonym jsmap = "(jsstring \<times> jsstring) list"

definition map_set :: "jsmap \<Rightarrow> jsstring \<Rightarrow> jsstring \<Rightarrow> jsmap" where
  "map_set m k v = AList.update k v m"

definition map_has :: "jsmap \<Rightarrow> jsstring \<Rightarrow> bool" where
  "map_has m k \<longleftrightarrow> map_of m k \<noteq> None"

definition map_get :: "jsmap \<Rightarrow> jsstring \<Rightarrow> jsstring option" where
  "map_get m k = map_of m k"

definition map_keys :: "jsmap \<Rightarrow> jsstring list" where
  "map_keys m = map fst m"

text \<open>\<open>new Set(array)\<close>, as the list of its elements in insertion order.\<close>

definition set_of_array :: "jsstring list \<Rightarrow> jsstring list" where
  "set_of_array xs = fold (\<lambda>x s. if x \<in> set s then s else s @ [x]) xs []"

definition propertiesToMap :: "entry list \<Rightarrow> jsmap" where
  "propertiesToMap entries =
     fold (\<lambda>entry m.
             (case entry of
                Property k v l \<Rightarrow> map_set m (orEmpty (Some k)) (orEmpty (Some v))
              | Comment l \<Rightarrow> m
              | Blank l \<Rightarrow> m))
       entries []"

definition yamlToMap :: "flatEntry list \<Rightarrow> jsmap" where
  "yamlToMap entries =
     fold (\<lambda>entry m. map_set m (orEmpty (Some (fe_key entry))) (orEmpty (Some (fe_value entry))))
       entries []"

datatype fileType = Properties | Yaml

definition formatLine :: "jsstring \<Rightarrow> jsstring option \<Rightarrow> fileType \<Rightarrow> jsstring" where
  "formatLine k v ft =
     (let safeKey = k;
          safeValue = (case v of None \<Rightarrow> [] | Some s \<Rightarrow> s)
      in if ft = Properties then safeKey @ js ''='' @ safeValue
         else safeKey @ js '': '' @ safeValue)"

datatype status = Added | Removed | Modified | Unchanged

text \<open>A diff row. \<open>null\<close> highlights and the absent \<open>key\<close> and \<open>fileType\<close> fields of
  the rows that are not modified are \<open>None\<close>.\<close>

record diffRow =
  row_status :: status
  leftLine :: jsstring
  rightLine :: jsstring
  leftHighlight :: "segment list option"
  rightHighlight :: "segment list option"
  row_key :: "jsstring option"
  row_fileType :: "fileType option"

text \<open>The body of the loop \<open>for (const key of sortedKeys)\<close>: the row pushed for one
  key.\<close>

definition compare_row :: "jsmap \<Rightarrow> jsmap \<Rightarrow> fileType \<Rightarrow> jsstring \<Rightarrow> diffRow" where
  "compare_row leftEntries rightEntries ft k =
     (let hasLeft = map_has leftEntries k;
          hasRight = map_has rightEntries k;
          leftValue = (if hasLeft then map_get leftEntries k else None);
          rightValue = (if hasRight then map_get rightEntries k else None)
      in if \<not> hasLeft \<and> hasRight then
           \<lparr>row_status = Added, leftLine = [], rightLine = formatLine k rightValue ft,
            leftHighlight = None, rightHighlight = None, row_key = None, row_fileType = None\<rparr>
         else if hasLeft \<and> \<not> hasRight then
           \<lparr>row_status = Removed, leftLine = formatLine k leftValue ft, rightLine = [],
            leftHighlight = None, rightHighlight = None, row_key = None, row_fileType = None\<rparr>
         else if leftValue \<noteq> rightValue then
           (let highlights = highlightDifferences leftValue rightValue
            in \<lparr>row_status = Modified, leftLine = formatLine k leftValue ft,
                 rightLine = formatLine k rightValue ft,
                 leftHighlight = Some (fst highlights), rightHighlight = Some (snd highlights),
                 row_key = Some k, row_fileType = Some ft\<rparr>)
         else
           \<lparr>row_status = Unchanged, leftLine = formatLine k leftValue ft,
            rightLine = formatLine k rightValue ft,
            leftHighlight = None, rightHighlight = None, row_key = None, row_fileType = None\<rparr>)"

text \<open>\<open>Array.from(new Set([...leftEntries.keys(), ...rightEntries.keys()])).sort()\<close>:
  the default sort orders strings by their code units.\<close>

definition sortedKeys :: "jsmap \<Rightarrow> jsmap \<Rightarrow> jsstring list" where
  "sortedKeys leftEntries rightEntries =
     sort_key (\<lambda>k. k) (set_of_array (map_keys leftEntries @ map_keys rightEntries))"

definition compare_maps :: "jsmap \<Rightarrow> jsmap \<Rightarrow> fileType \<Rightarrow> diffRow list" where
  "compare_maps leftEntries rightEntries ft =
     fold (\<lambda>k diffResults. diffResults @ [compare_row leftEntries rightEntries ft k])
       (sortedKeys leftEntries rightEntries) []"

text \<open>
  The arguments of \<open>compare(leftData, rightData, fileType)\<close> as the controller passes
  them: two entry arrays with \<open>'properties'\<close>, or two parsed objects with \<open>'yaml'\<close>.
\<close>

datatype compareArgs =
    PropertiesArgs "entry list" "entry list"
  | YamlArgs yobj yobj

fun args_fileType :: "compareArgs \<Rightarrow> fileType" where
  "args_fileType (PropertiesArgs leftData rightData) = Properties"
| "args_fileType (YamlArgs leftData rightData) = Yaml"

fun leftEntries_of :: "compareArgs \<Rightarrow> jsmap" where
  "leftEntries_of (PropertiesArgs leftData rightData) = propertiesToMap leftData"
| "leftEntries_of (YamlArgs leftData rightData) = yamlToMap (flatten leftData [])"

fun rightEntries_of :: "compareArgs \<Rightarrow> jsmap" where
  "rightEntries_of (PropertiesArgs leftData rightData) = propertiesToMap rightData"
| "rightEntries_of (YamlArgs leftData rightData) = yamlToMap (flatten rightData [])"

definition DiffEngine_compare :: "compareArgs \<Rightarrow> diffRow list" where
  "DiffEngine_compare args = compare_maps (leftEntries_of args) (rightEntries_of args) (args_fileType args)"

fun swapArgs :: "compareArgs \<Rightarrow> compareArgs" where
  "swapArgs (PropertiesArgs leftData rightData) = PropertiesArgs rightData leftData"
| "swapArgs (YamlArgs leftData rightData) = YamlArgs rightData leftData"

subsection \<open>The copy of \<open>DiffEngine.compare\<close> in \<open>app.js\<close>\<close>

text \<open>
  \<open>app.js\<close> reads \<open>leftEntries.get(key)\<close> and \<open>rightEntries.get(key)\<close> and classifies by
  their truthiness; its \<open>computeLCS\<close> reads \<open>str1.length\<close> and \<open>str2.length\<close> without a
  guard, a TypeError on \<open>undefined\<close>; its \<open>formatLine\<close> interpolates the value as it is;
  its \<open>propertiesToMap\<close> and \<open>yamlToMap\<close> store \<open>key\<close> and \<open>value\<close> as they are; its
  \<open>flatten\<close> agrees with the reference on objects of parsed nodes. The exception
  leaves \<open>compare\<close>, so the result is an error or the rows.
\<close>

definition truthy :: "jsstring option \<Rightarrow> bool" where
  "truthy v \<longleftrightarrow> (case v of None \<Rightarrow> False | Some s \<Rightarrow> s \<noteq> [])"

definition formatLine_app_js :: "jsstring \<Rightarrow> jsstring option \<Rightarrow> fileType \<Rightarrow> jsstring" where
  "formatLine_app_js k v ft =
     (let shown = (case v of None \<Rightarrow> js ''undefined'' | Some s \<Rightarrow> s)
      in if ft = Properties then k @ js ''='' @ shown else k @ js '': '' @ shown)"

definition highlightDifferences_app_js ::
  "jsstring option \<Rightarrow> jsstring option \<Rightarrow> error + segment list \<times> segment list" where
  "highlightDifferences_app_js s1 s2 =
     (case s1 of
        None \<Rightarrow> Inl TypeError
      | Some str1 \<Rightarrow>
          (case s2 of
             None \<Rightarrow> Inl TypeError
           | Some str2 \<Rightarrow> Inr (highlightDifferences (Some str1) (Some str2))))"

definition compare_row_app_js :: "jsmap \<Rightarrow> jsmap \<Rightarrow> fileType \<Rightarrow> jsstring \<Rightarrow> error + diffRow" where
  "compare_row_app_js leftEntries rightEntries ft k =
     (let leftValue = map_get leftEntries k;
          rightValue = map_get rightEntries k
      in if \<not> truthy leftValue \<and> truthy rightValue then
           Inr \<lparr>row_status = Added, leftLine = [], rightLine = formatLine_app_js k rightValue ft,
                leftHighlight = None, rightHighlight = None, row_key = None, row_fileType = None\<rparr>
         else if truthy leftValue \<and> \<not> truthy rightValue then
           Inr \<lparr>row_status = Removed, leftLine = formatLine_app_js k leftValue ft, rightLine = [],
                leftHighlight = None, rightHighlight = None, row_key = None, row_fileType = None\<rparr>
         else if leftValue \<noteq> rightValue then
           (case highlightDifferences_app_js leftValue rightValue of
              Inl e \<Rightarrow> Inl e
            | Inr highlights \<Rightarrow>
                Inr \<lparr>row_status = Modified, leftLine = formatLine_app_js k leftValue ft,
                     rightLine = formatLine_app_js k rightValue ft,
                     leftHighlight = Some (fst highlights), rightHighlight = Some (snd highlights),
                     row_key = Some k, row_fileType = Some ft\<rparr>)
         else
           Inr \<lparr>row_status = Unchanged, leftLine = formatLine_app_js k leftValue ft,
                rightLine = formatLine_app_js k rightValue ft,
                leftHighlight = None, rightHighlight = None, row_key = None, row_fileType = None\<rparr>)"

fun compare_loop_app_js ::
  "jsmap \<Rightarrow> jsmap \<Rightarrow> fileType \<Rightarrow> jsstring list \<Rightarrow> diffRow list \<Rightarrow> error + diffRow list" where
  "compare_loop_app_js leftEntries rightEntries ft [] diffResults = Inr diffResults"
| "compare_loop_app_js leftEntries rightEntries ft (k # ks) diffResults =
     (case compare_row_app_js leftEntries rightEntries ft k of
        Inl e \<Rightarrow> Inl e
      | Inr row \<Rightarrow> compare_loop_app_js leftEntries rightEntries ft ks (diffResults @ [row]))"

definition propertiesToMap_app_js :: "entry list \<Rightarrow> jsmap" where
  "propertiesToMap_app_js entries =
     fold (\<lambda>entry m.
             (case entry of
                Property k v l \<Rightarrow> map_set m k v
              | Comment l \<Rightarrow> m
              | Blank l \<Rightarrow> m))
       entries []"

definition yamlToMap_app_js :: "flatEntry list \<Rightarrow> jsmap" where
  "yamlToMap_app_js entries = fold (\<lambda>entry m. map_set m (fe_key entry) (fe_value entry)) entries []"

fun leftEntries_app_js :: "compareArgs \<Rightarrow> jsmap" where
  "leftEntries_app_js (PropertiesArgs leftData rightData) = propertiesToMap_app_js leftData"
| "leftEntries_app_js (YamlArgs leftData rightData) = yamlToMap_app_js (flatten leftData [])"

fun rightEntries_app_js :: "compareArgs \<Rightarrow> jsmap" where
  "rightEntries_app_js (PropertiesArgs leftData rightData) = propertiesToMap_app_js rightData"
| "rightEntries_app_js (YamlArgs leftData rightData) = yamlToMap_app_js (flatten rightData [])"

definition DiffEngine_compare_app_js :: "compareArgs \<Rightarrow> error + diffRow list" where
  "DiffEngine_compare_app_js args =
     compare_loop_app_js (leftEntries_app_js args) (rightEntries_app_js args) (args_fileType args)
       (sortedKeys (leftEntries_app_js args) (rightEntries_app_js args)) []"

subsection \<open>Rows under a swap of the two inputs\<close>

fun swap_status :: "status \<Rightarrow> status" where
  "swap_status Added = Removed"
| "swap_status Removed = Added"
| "swap_status Modified = Modified"
| "swap_status Unchanged = Unchanged"

fun swap_role :: "role \<Rightarrow> role" where
  "swap_role AddedSeg = RemovedSeg"
| "swap_role RemovedSeg = AddedSeg"
| "swap_role UnchangedSeg = UnchangedSeg"

definition swap_segment :: "segment \<Rightarrow> segment" where
  "swap_segment s = \<lparr>seg_text = seg_text s, seg_type = swap_role (seg_type s)\<rparr>"

text \<open>The segments of a highlight field, none for \<open>null\<close>.\<close>

definition segments_of :: "segment list option \<Rightarrow> segment list" where
  "segments_of h = (case h of None \<Rightarrow> [] | Some segs \<Rightarrow> segs)"

text \<open>
  How the row \<open>r'\<close> of a key after the swap relates to its row \<open>r\<close> before: the status
  is swapped, the rendered lines are exchanged, an unchanged row is the same row, and the
  segment sequences are exchanged in their characters and in their number of unchanged
  segments, with removed segments only on the left and added segments only on the right.
\<close>

definition row_swapped :: "diffRow \<Rightarrow> diffRow \<Rightarrow> bool" where
  "row_swapped r r' \<longleftrightarrow>
     row_status r' = swap_status (row_status r) \<and>
     leftLine r' = rightLine r \<and> rightLine r' = leftLine r \<and>
     row_key r' = row_key r \<and> row_fileType r' = row_fileType r \<and>
     (row_status r = Unchanged \<longrightarrow> r' = r) \<and>
     (leftHighlight r' = None \<longleftrightarrow> rightHighlight r = None) \<and>
     (rightHighlight r' = None \<longleftrightarrow> leftHighlight r = None) \<and>
     map seg_text (segments_of (leftHighlight r')) = map seg_text (segments_of (rightHighlight r)) \<and>
     map seg_text (segments_of (rightHighlight r')) = map seg_text (segments_of (leftHighlight r)) \<and>
     unchanged_count (segments_of (leftHighlight r')) = unchanged_count (segments_of (rightHighlight r)) \<and>
     unchanged_count (segments_of (rightHighlight r')) = unchanged_count (segments_of (leftHighlight r)) \<and>
     list_all (\<lambda>s. seg_type s \<noteq> AddedSeg) (segments_of (leftHighlight r')) \<and>
     list_all (\<lambda>s. seg_type s \<noteq> RemovedSeg) (segments_of (rightHighlight r'))"

section \<open>Basic facts about the string helpers\<close>

lemma orEmpty_Some [simp]: "orEmpty (Some s) = s"
  by (simp add: orEmpty_def)

lemma orEmpty_None [simp]: "orEmpty None = []"
  by (simp add: orEmpty_def)

section \<open>The LCS table and its backtracking\<close>

text \<open>The recurrence the table is meant to hold, as a function of the two prefix
  lengths.\<close>

lemma lcsLen_zero_right [simp]: "lcsLen a b i 0 = 0"
  by (cases i) simp_all

lemma lcsLen_step:
  "0 < i \<Longrightarrow> 0 < j \<Longrightarrow>
   lcsLen a b i j =
     (if a ! (i - 1) = b ! (j - 1) then lcsLen a b (i - 1) (j - 1) + 1
      else max (lcsLen a b (i - 1) j) (lcsLen a b i (j - 1)))"
  by (cases i; cases j) simp_all

lemma lcsLen_commute: "lcsLen a b i j = lcsLen b a j i"
  by (induction a b i j rule: lcsLen.induct) (auto simp: max.commute)

lemma table_upto_init:
  "table_upto a b 1 1 (replicate (length a + 1) (replicate (length b + 1) 0))"
  unfolding table_upto_def by (auto simp: nth_Cons' less_Suc_eq_le)

lemma table_upto_cell:
  assumes "table_upto a b i J dp" "1 \<le> i" "i \<le> length a" "1 \<le> J" "J \<le> length b"
  shows "table_upto a b i (Suc J) (lcs_cell a b i J dp)"
proof -
  let ?v = "(if a ! (i - 1) = b ! (J - 1) then dp ! (i - 1) ! (J - 1) + 1
             else max (dp ! (i - 1) ! J) (dp ! i ! (J - 1)))"
  have len: "length dp = length a + 1"
    and rows: "\<And>r. r \<le> length a \<Longrightarrow> length (dp ! r) = length b + 1"
    and vals: "\<And>r c. r \<le> length a \<Longrightarrow> c \<le> length b \<Longrightarrow>
        dp ! r ! c = (if r < i \<or> (r = i \<and> c < J) then lcsLen a b r c else 0)"
    using assms(1) unfolding table_upto_def by auto
  have cell: "lcs_cell a b i J dp = dp[i := (dp ! i)[J := ?v]]"
    by (simp add: lcs_cell_def)
  have v: "?v = lcsLen a b i J"
    using assms(2-5) by (simp add: lcsLen_step [of i J] vals)
  show ?thesis
    unfolding table_upto_def cell v
  proof (intro conjI allI impI)
    show "length (dp[i := (dp ! i)[J := lcsLen a b i J]]) = length a + 1"
      by (simp add: len)
  next
    fix r assume "r \<le> length a"
    then show "length (dp[i := (dp ! i)[J := lcsLen a b i J]] ! r) = length b + 1"
      using len rows by (cases "r = i") simp_all
  next
    fix r c assume rc: "r \<le> length a" "c \<le> length b"
    show "dp[i := (dp ! i)[J := lcsLen a b i J]] ! r ! c =
          (if r < i \<or> r = i \<and> c < Suc J then lcsLen a b r c else 0)"
    proof (cases "r = i")
      case True
      have bounds: "i < length dp" "J < length (dp ! i)"
        using len rows [of i] assms(3,5) by simp_all
      show ?thesis
      proof (cases "c = J")
        case True
        with \<open>r = i\<close> bounds show ?thesis by simp
      next
        case False
        with \<open>r = i\<close> bounds vals [of i c] rc show ?thesis
          by (auto simp: less_Suc_eq)
      qed
    next
      case False
      then show ?thesis
        using rc len vals [of r c] by simp
    qed
  qed
qed

lemma table_upto_row:
  assumes "table_upto a b i 1 dp" "1 \<le> i" "i \<le> length a" "J \<le> length b"
  shows "table_upto a b i (Suc J) (fold (\<lambda>j dp. lcs_cell a b i j dp) [1..<Suc J] dp)"
  using assms(4)
proof (induction J)
  case 0
  then show ?case using assms(1) by simp
next
  case (Suc J)
  then have "table_upto a b i (Suc J) (fold (\<lambda>j dp. lcs_cell a b i j dp) [1..<Suc J] dp)"
    by simp
  from table_upto_cell [OF this assms(2,3)] Suc.prems
  show ?case by simp
qed

lemma table_upto_next_row:
  "table_upto a b i (Suc (length b)) dp \<Longrightarrow> table_upto a b (Suc i) 1 dp"
  unfolding table_upto_def
  by (auto simp: less_Suc_eq)

lemma table_upto_rows:
  assumes "I \<le> length a"
  shows "table_upto a b (Suc I) 1
     (fold (\<lambda>i dp. fold (\<lambda>j dp. lcs_cell a b i j dp) [1..<length b + 1] dp) [1..<Suc I]
        (replicate (length a + 1) (replicate (length b + 1) 0)))"
  using assms
proof (induction I)
  case 0
  then show ?case using table_upto_init by simp
next
  case (Suc I)
  then have ih: "table_upto a b (Suc I) 1
     (fold (\<lambda>i dp. fold (\<lambda>j dp. lcs_cell a b i j dp) [1..<length b + 1] dp) [1..<Suc I]
        (replicate (length a + 1) (replicate (length b + 1) 0)))"
    by simp
  have "table_upto a b (Suc I) (Suc (length b))
     (fold (\<lambda>j dp. lcs_cell a b (Suc I) j dp) [1..<Suc (length b)]
       (fold (\<lambda>i dp. fold (\<lambda>j dp. lcs_cell a b i j dp) [1..<length b + 1] dp) [1..<Suc I]
        (replicate (length a + 1) (replicate (length b + 1) 0))))"
    using table_upto_row [OF ih _ _ le_refl] Suc.prems by simp
  from table_upto_next_row [OF this] show ?case by simp
qed

lemma computeLCS_lcsLen:
  assumes "i \<le> length a" "j \<le> length b"
  shows "computeLCS (Some a) (Some b) ! i ! j = lcsLen a b i j"
proof -
  have "table_upto a b (Suc (length a)) 1 (computeLCS (Some a) (Some b))"
    using table_upto_rows [of "length a" a b] by (simp add: computeLCS_def Let_def)
  then show ?thesis
    using assms unfolding table_upto_def by (auto simp: less_Suc_eq_le)
qed

lemma keep_text_simps [simp]:
  "keep_text rs [] = []"
  "keep_text rs (s # segs) =
     (if seg_type s \<in> set rs then seg_text s # keep_text rs segs else keep_text rs segs)"
  "keep_text rs (xs @ ys) = keep_text rs xs @ keep_text rs ys"
  by (simp_all add: keep_text_def)

lemma unchanged_count_simps [simp]:
  "unchanged_count [] = 0"
  "unchanged_count (s # segs) =
     (if seg_type s = UnchangedSeg then Suc (unchanged_count segs) else unchanged_count segs)"
  "unchanged_count (xs @ ys) = unchanged_count xs + unchanged_count ys"
  by (simp_all add: unchanged_count_def)

lemma keep_text_all:
  "seg_type ` set segs \<subseteq> set rs \<Longrightarrow> keep_text rs segs = map seg_text segs"
  by (induction segs) auto

lemma take_pred_snoc:
  "0 < i \<Longrightarrow> i \<le> length xs \<Longrightarrow> take (i - Suc 0) xs @ [xs ! (i - Suc 0)] = take i xs"
  by (cases i) (simp_all add: take_Suc_conv_app_nth)

text \<open>What the backtracking loop adds in front of its two accumulators, started at
  \<open>(i, j)\<close> on a table that holds the recurrence.\<close>

lemma highlight_loop_spec:
  assumes tab: "\<And>r c. r \<le> length a \<Longrightarrow> c \<le> length b \<Longrightarrow> dp ! r ! c = lcsLen a b r c"
    and "i \<le> length a" "j \<le> length b"
  shows "\<exists>L R. highlight_loop a b dp i j left right = (L @ left, R @ right) \<and>
      map seg_text L = take i a \<and> seg_type ` set L \<subseteq> {UnchangedSeg, RemovedSeg} \<and>
      map seg_text R = take j b \<and> seg_type ` set R \<subseteq> {UnchangedSeg, AddedSeg} \<and>
      unchanged_count L = lcsLen a b i j \<and> unchanged_count R = lcsLen a b i j"
  using assms
proof (induction a b dp i j left right rule: highlight_loop.induct)
  case (1 str1 str2 dp i j left right)
  note tab = "1.prems"(1)
  note bounds = "1.prems"(2,3)
  have bi: "i - 1 \<le> length str1" and bj: "j - 1 \<le> length str2"
    using bounds by simp_all
  show ?case
  proof (cases "i > 0 \<or> j > 0")
    case False
    then have "highlight_loop str1 str2 dp i j left right = ([] @ left, [] @ right)"
      by (subst highlight_loop.simps) simp
    with False show ?thesis by simp
  next
    case pos: True
    show ?thesis
    proof (cases "i > 0 \<and> j > 0 \<and> str1 ! (i - 1) = str2 ! (j - 1)")
      case True
      let ?sl = "\<lparr>seg_text = str1 ! (i - 1), seg_type = UnchangedSeg\<rparr>"
      let ?sr = "\<lparr>seg_text = str2 ! (j - 1), seg_type = UnchangedSeg\<rparr>"
      from "1.IH"(1) [OF pos True tab bi bj]
      obtain L R where
        eq: "highlight_loop str1 str2 dp (i - 1) (j - 1) (?sl # left) (?sr # right) =
               (L @ ?sl # left, R @ ?sr # right)"
        and L: "map seg_text L = take (i - 1) str1" "seg_type ` set L \<subseteq> {UnchangedSeg, RemovedSeg}"
        and R: "map seg_text R = take (j - 1) str2" "seg_type ` set R \<subseteq> {UnchangedSeg, AddedSeg}"
        and cnt: "unchanged_count L = lcsLen str1 str2 (i - 1) (j - 1)"
                 "unchanged_count R = lcsLen str1 str2 (i - 1) (j - 1)"
        by blast
      have step: "highlight_loop str1 str2 dp i j left right =
                    ((L @ [?sl]) @ left, (R @ [?sr]) @ right)"
        using pos True eq by (subst highlight_loop.simps) simp
      have len: "lcsLen str1 str2 i j = lcsLen str1 str2 (i - 1) (j - 1) + 1"
        using True by (simp add: lcsLen_step)
      show ?thesis
        apply (rule exI [of _ "L @ [?sl]"], rule exI [of _ "R @ [?sr]"])
        using step L R cnt len True bounds
          take_pred_snoc [of i str1] take_pred_snoc [of j str2]
        by simp
    next
      case ne: False
      show ?thesis
      proof (cases "j > 0 \<and> (i = 0 \<or> dp ! i ! (j - 1) \<ge> dp ! (i - 1) ! j)")
        case True
        let ?sr = "\<lparr>seg_text = str2 ! (j - 1), seg_type = AddedSeg\<rparr>"
        from "1.IH"(2) [OF pos ne True tab bounds(1) bj]
        obtain L R where
          eq: "highlight_loop str1 str2 dp i (j - 1) left (?sr # right) =
                 (L @ left, R @ ?sr # right)"
          and L: "map seg_text L = take i str1" "seg_type ` set L \<subseteq> {UnchangedSeg, RemovedSeg}"
          and R: "map seg_text R = take (j - 1) str2" "seg_type ` set R \<subseteq> {UnchangedSeg, AddedSeg}"
          and cnt: "unchanged_count L = lcsLen str1 str2 i (j - 1)"
                   "unchanged_count R = lcsLen str1 str2 i (j - 1)"
          by blast
        have step: "highlight_loop str1 str2 dp i j left right = (L @ left, (R @ [?sr]) @ right)"
          using pos ne True eq by (subst highlight_loop.simps) auto
        have len: "lcsLen str1 str2 i j = lcsLen str1 str2 i (j - 1)"
        proof (cases "i = 0")
          case True
          then show ?thesis by simp
        next
          case False
          with True have "lcsLen str1 str2 (i - 1) j \<le> lcsLen str1 str2 i (j - 1)"
            using tab [of i "j - 1"] tab [of "i - 1" j] bounds by simp
          with False True ne show ?thesis
            by (simp add: lcsLen_step [of i j])
        qed
        show ?thesis
          apply (rule exI [of _ L], rule exI [of _ "R @ [?sr]"])
          using step L R cnt len True bounds take_pred_snoc [of j str2]
          by simp
      next
        case nj: False
        with pos have ipos: "i > 0" by auto
        let ?sl = "\<lparr>seg_text = str1 ! (i - 1), seg_type = RemovedSeg\<rparr>"
        from "1.IH"(3) [OF pos ne nj ipos tab bi bounds(2)]
        obtain L R where
          eq: "highlight_loop str1 str2 dp (i - 1) j (?sl # left) right =
                 (L @ ?sl # left, R @ right)"
          and L: "map seg_text L = take (i - 1) str1" "seg_type ` set L \<subseteq> {UnchangedSeg, RemovedSeg}"
          and R: "map seg_text R = take j str2" "seg_type ` set R \<subseteq> {UnchangedSeg, AddedSeg}"
          and cnt: "unchanged_count L = lcsLen str1 str2 (i - 1) j"
                   "unchanged_count R = lcsLen str1 str2 (i - 1) j"
          by blast
        have step: "highlight_loop str1 str2 dp i j left right = ((L @ [?sl]) @ left, R @ right)"
          using pos ne nj ipos eq by (subst highlight_loop.simps) auto
        have len: "lcsLen str1 str2 i j = lcsLen str1 str2 (i - 1) j"
        proof (cases "j = 0")
          case True
          then show ?thesis by simp
        next
          case False
          with nj ipos have "lcsLen str1 str2 i (j - 1) < lcsLen str1 str2 (i - 1) j"
            using tab [of i "j - 1"] tab [of "i - 1" j] bounds by simp
          with False ipos ne show ?thesis
            by (simp add: lcsLen_step [of i j])
        qed
        show ?thesis
          apply (rule exI [of _ "L @ [?sl]"], rule exI [of _ R])
          using step L R cnt len ipos bounds take_pred_snoc [of i str1]
          by simp
      qed
    qed
  qed
qed

text \<open>The segment sequences of \<open>highlightDifferences(a, b)\<close>: the left one spells \<open>a\<close>
  with roles unchanged/removed, the right one spells \<open>b\<close> with roles unchanged/added,
  and both hold as many unchanged segments as the recurrence counts.\<close>

lemma highlightDifferences_spec:
  "map seg_text (fst (highlightDifferences (Some a) (Some b))) = a \<and>
   seg_type ` set (fst (highlightDifferences (Some a) (Some b))) \<subseteq> {UnchangedSeg, RemovedSeg} \<and>
   map seg_text (snd (highlightDifferences (Some a) (Some b))) = b \<and>
   seg_type ` set (snd (highlightDifferences (Some a) (Some b))) \<subseteq> {UnchangedSeg, AddedSeg} \<and>
   unchanged_count (fst (highlightDifferences (Some a) (Some b))) = lcsLen a b (length a) (length b) \<and>
   unchanged_count (snd (highlightDifferences (Some a) (Some b))) = lcsLen a b (length a) (length b)"
proof -
  have tab: "\<And>r c. r \<le> length a \<Longrightarrow> c \<le> length b \<Longrightarrow>
      computeLCS (Some a) (Some b) ! r ! c = lcsLen a b r c"
    by (rule computeLCS_lcsLen)
  from highlight_loop_spec [of a b "computeLCS (Some a) (Some b)" "length a" "length b" "[]" "[]",
      OF tab le_refl le_refl]
  obtain L R where
    eq: "highlight_loop a b (computeLCS (Some a) (Some b)) (length a) (length b) [] [] = (L, R)"
    and L: "map seg_text L = a" "seg_type ` set L \<subseteq> {UnchangedSeg, RemovedSeg}"
    and R: "map seg_text R = b" "seg_type ` set R \<subseteq> {UnchangedSeg, AddedSeg}"
    and cnt: "unchanged_count L = lcsLen a b (length a) (length b)"
             "unchanged_count R = lcsLen a b (length a) (length b)"
    by auto
  have "highlightDifferences (Some a) (Some b) = (L, R)"
    using eq by (simp add: highlightDifferences_def Let_def)
  with L R cnt show ?thesis
    by simp
qed

lemma kitten_sitting_table:
  "computeLCS (Some (js ''kitten'')) (Some (js ''sitting''))
     ! length (js ''kitten'') ! length (js ''sitting'') = 4"
  by code_simp

text \<open>
  Claim C4. For all strings \<open>a\<close> and \<open>b\<close>, in \<open>highlightDifferences(a, b)\<close> the
  characters of the unchanged and removed segments of the left sequence, in order, are
  \<open>a\<close>; those of the unchanged and added segments of the right sequence are \<open>b\<close>; and
  the number of unchanged segments, the same on both sides, is the table entry
  \<open>computeLCS(a, b)[|a|][|b|]\<close>. For \<open>kitten\<close> and \<open>sitting\<close> that number is 4.
\<close>

theorem highlightDifferences_reconstructs:
  "keep_text [UnchangedSeg, RemovedSeg] (fst (highlightDifferences (Some a) (Some b))) = a \<and>
   keep_text [UnchangedSeg, AddedSeg] (snd (highlightDifferences (Some a) (Some b))) = b \<and>
   unchanged_count (fst (highlightDifferences (Some a) (Some b)))
     = computeLCS (Some a) (Some b) ! length a ! length b \<and>
   unchanged_count (snd (highlightDifferences (Some a) (Some b)))
     = computeLCS (Some a) (Some b) ! length a ! length b \<and>
   unchanged_count (fst (highlightDifferences (Some (js ''kitten'')) (Some (js ''sitting'')))) = 4 \<and>
   unchanged_count (snd (highlightDifferences (Some (js ''kitten'')) (Some (js ''sitting'')))) = 4"
proof -
  have general: "keep_text [UnchangedSeg, RemovedSeg] (fst (highlightDifferences (Some x) (Some y))) = x \<and>
      keep_text [UnchangedSeg, AddedSeg] (snd (highlightDifferences (Some x) (Some y))) = y \<and>
      unchanged_count (fst (highlightDifferences (Some x) (Some y)))
        = computeLCS (Some x) (Some y) ! length x ! length y \<and>
      unchanged_count (snd (highlightDifferences (Some x) (Some y)))
        = computeLCS (Some x) (Some y) ! length x ! length y" for x y
    using highlightDifferences_spec [of x y] computeLCS_lcsLen [of "length x" x "length y" y]
    by (simp add: keep_text_all)
  from general [of a b] general [of "js ''kitten''" "js ''sitting''"] kitten_sitting_table
  show ?thesis by simp
qed

section \<open>PropertyParser.sort\<close>


lemma emit_groups_acc:
  "fold (\<lambda>prop result. result @ pg_comments prop @ [pg_entry prop]) properties acc =
     acc @ concat (map group_entries properties)"
  by (induction properties arbitrary: acc) (simp_all add: group_entries_def)

lemma emit_groups_concat: "emit_groups properties = concat (map group_entries properties)"
  by (simp add: emit_groups_def emit_groups_acc)

lemma emit_groups_append [simp]:
  "emit_groups (xs @ ys) = emit_groups xs @ emit_groups ys"
  by (simp add: emit_groups_concat)

lemma emit_groups_simps [simp]:
  "emit_groups [] = []"
  "emit_groups (p # ps) = pg_comments p @ [pg_entry p] @ emit_groups ps"
  by (simp_all add: emit_groups_concat group_entries_def)

lemma mset_emit_groups: "mset (emit_groups ps) = (\<Sum>p\<in>#mset ps. mset (group_entries p))"
proof -
  have "mset (emit_groups ps) = sum_list (map (\<lambda>p. mset (group_entries p)) ps)"
    by (simp add: emit_groups_concat mset_concat comp_def)
  also have "\<dots> = sum_mset (mset (map (\<lambda>p. mset (group_entries p)) ps))"
    by (simp only: sum_mset_sum_list)
  finally show ?thesis by simp
qed

lemma mset_emit_groups_sort:
  "mset (emit_groups (Sorting_Algorithms.sort cmp ps)) = mset (emit_groups ps)"
  by (simp add: mset_emit_groups)

lemma group_step_mset:
  "mset (emit_groups (fst (group_step e st))) + mset (snd (group_step e st)) =
     mset (emit_groups (fst st)) + mset (snd st) + {#e#}"
  by (cases e; cases st) simp_all

lemma fold_group_step_mset:
  "mset (emit_groups (fst (fold group_step es st))) + mset (snd (fold group_step es st)) =
     mset (emit_groups (fst st)) + mset (snd st) + mset es"
proof (induction es arbitrary: st)
  case Nil
  then show ?case by simp
next
  case (Cons e es)
  show ?case
    by (simp add: Cons.IH group_step_mset)
qed

lemma mset_PropertyParser_sort:
  "mset (PropertyParser_sort localeCompare entries) = mset entries"
proof -
  obtain properties pendingComments
    where g: "fold group_step entries ([], []) = (properties, pendingComments)"
    by (cases "fold group_step entries ([], [])")
  from fold_group_step_mset [of entries "([], [])"] g
  have "mset (emit_groups properties) + mset pendingComments = mset entries"
    by simp
  then show ?thesis
    by (simp add: PropertyParser_sort_def g mset_emit_groups_sort)
qed

text \<open>Grouping the output of \<open>sort\<close> again gives back the same groups.\<close>

lemma fold_group_step_comments:
  "list_all (\<lambda>e. \<not> isProperty e) cs \<Longrightarrow>
   fold group_step cs (ps, pend) = (ps, pend @ cs)"
proof (induction cs arbitrary: pend)
  case Nil
  then show ?case by simp
next
  case (Cons c cs)
  then show ?case by (cases c) simp_all
qed

lemma fold_group_step_group:
  assumes "group_ok p"
  shows "fold group_step (group_entries p) (ps, []) = (ps @ [p], [])"
proof -
  from assms obtain k v l where e: "pg_entry p = Property k v l"
    and kv: "pg_key p = k" "pg_value p = v"
    and cs: "list_all (\<lambda>e. \<not> isProperty e) (pg_comments p)"
    by (auto simp: group_ok_def split: entry.splits)
  have "p = \<lparr>pg_key = k, pg_value = v, pg_comments = pg_comments p, pg_entry = Property k v l\<rparr>"
    using e kv by (cases p) simp
  then show ?thesis
    using fold_group_step_comments [OF cs, of ps "[]"] e
    by (simp add: group_entries_def)
qed

lemma fold_group_step_emit:
  "list_all group_ok gs \<Longrightarrow> fold group_step (emit_groups gs) (ps, []) = (ps @ gs, [])"
proof (induction gs arbitrary: ps)
  case Nil
  then show ?case by simp
next
  case (Cons g gs)
  then have "fold group_step (group_entries g) (ps, []) = (ps @ [g], [])"
    by (simp add: fold_group_step_group)
  moreover have "emit_groups (g # gs) = group_entries g @ emit_groups gs"
    by (simp add: group_entries_def)
  ultimately show ?case
    using Cons by (simp del: emit_groups_simps)
qed

lemma group_step_ok:
  "list_all group_ok (fst st) \<Longrightarrow> list_all (\<lambda>e. \<not> isProperty e) (snd st) \<Longrightarrow>
   list_all group_ok (fst (group_step e st)) \<and> list_all (\<lambda>e. \<not> isProperty e) (snd (group_step e st))"
  by (cases e; cases st) (simp_all add: group_ok_def)

lemma fold_group_step_ok:
  "list_all group_ok (fst st) \<Longrightarrow> list_all (\<lambda>e. \<not> isProperty e) (snd st) \<Longrightarrow>
   list_all group_ok (fst (fold group_step es st)) \<and>
   list_all (\<lambda>e. \<not> isProperty e) (snd (fold group_step es st))"
proof (induction es arbitrary: st)
  case Nil
  then show ?case by simp
next
  case (Cons e es)
  from group_step_ok [OF Cons.prems, of e] Cons.IH [of "group_step e st"]
  show ?case by simp
qed

lemma sort_sorted_id:
  "Sorting_Algorithms.sort cmp (Sorting_Algorithms.sort cmp xs) = Sorting_Algorithms.sort cmp xs"
  by (rule sort_eqI) simp_all

lemma PropertyParser_sort_idem:
  "PropertyParser_sort localeCompare (PropertyParser_sort localeCompare entries) =
     PropertyParser_sort localeCompare entries"
proof -
  obtain properties pendingComments
    where g: "fold group_step entries ([], []) = (properties, pendingComments)"
    by (cases "fold group_step entries ([], [])")
  let ?sorted = "Sorting_Algorithms.sort (key pg_key localeCompare) properties"
  from fold_group_step_ok [of "([], [])" entries] g
  have ok: "list_all group_ok properties" "list_all (\<lambda>e. \<not> isProperty e) pendingComments"
    by simp_all
  have "list_all group_ok ?sorted"
    using ok(1) by (simp add: list_all_iff)
  then have "fold group_step (emit_groups ?sorted) ([], []) = (?sorted, [])"
    using fold_group_step_emit [of ?sorted "[]"] by simp
  then have regroup: "fold group_step (emit_groups ?sorted @ pendingComments) ([], []) =
      (?sorted, pendingComments)"
    using fold_group_step_comments [OF ok(2), of ?sorted "[]"] by simp
  have first: "PropertyParser_sort localeCompare entries = emit_groups ?sorted @ pendingComments"
    by (simp add: PropertyParser_sort_def g)
  show ?thesis
    unfolding first
    by (simp add: PropertyParser_sort_def regroup sort_sorted_id del: fold_append)
qed


lemma fold_group_step_fst_prefix:
  "\<exists>gs. fst (fold group_step es st) = fst st @ gs"
proof (induction es arbitrary: st)
  case Nil
  then show ?case by simp
next
  case (Cons e es)
  obtain gs where "fst (fold group_step es (group_step e st)) = fst (group_step e st) @ gs"
    using Cons.IH by blast
  moreover obtain gs' where "fst (group_step e st) = fst st @ gs'"
    by (cases e; cases st) simp_all
  ultimately show ?case by simp
qed

lemma fold_group_step_pending_reset:
  "es = [] \<or> isProperty (last es) \<Longrightarrow> snd st = [] \<Longrightarrow> snd (fold group_step es st) = []"
proof (induction es arbitrary: st rule: rev_induct)
  case Nil
  then show ?case by simp
next
  case (snoc e es)
  then obtain k v l where "e = Property k v l"
    by (cases e) simp_all
  then show ?case
    by (cases "fold group_step es st") simp
qed

lemma emit_groups_ends_in_property:
  assumes "list_all group_ok gs"
  shows "emit_groups gs = [] \<or> isProperty (last (emit_groups gs))"
proof (cases gs rule: rev_cases)
  case Nil
  then show ?thesis by simp
next
  case (snoc front g)
  with assms have "group_ok g"
    by simp
  then have "isProperty (pg_entry g)"
    by (cases "pg_entry g") (simp_all add: group_ok_def)
  with snoc show ?thesis
    by simp
qed

lemma sort_keeps_block:
  assumes block: "list_all (\<lambda>e. \<not> isProperty e) block"
    and pre: "pre = [] \<or> isProperty (last pre)"
  shows "\<exists>before after.
    PropertyParser_sort localeCompare (pre @ block @ [Property k v l] @ post) =
      before @ block @ [Property k v l] @ after \<and>
    (before = [] \<or> isProperty (last before))"
proof -
  let ?p = "\<lparr>pg_key = k, pg_value = v, pg_comments = block, pg_entry = Property k v l\<rparr>"
  obtain gs1 where s1: "fold group_step pre ([], []) = (gs1, [])"
    using fold_group_step_pending_reset [OF pre, of "([], [])"]
    by (cases "fold group_step pre ([], [])") simp
  have s2: "fold group_step (pre @ block @ [Property k v l]) ([], []) = (gs1 @ [?p], [])"
    using s1 fold_group_step_comments [OF block, of gs1 "[]"] by simp
  obtain gs2 where "fst (fold group_step post (gs1 @ [?p], [])) = (gs1 @ [?p]) @ gs2"
    using fold_group_step_fst_prefix [of post "(gs1 @ [?p], [])"] by auto
  then obtain pendingComments where
    s3: "fold group_step (pre @ block @ Property k v l # post) ([], []) =
           (gs1 @ ?p # gs2, pendingComments)"
    using s2 by (cases "fold group_step post (gs1 @ [?p], [])") simp
  let ?sorted = "Sorting_Algorithms.sort (key pg_key localeCompare) (gs1 @ ?p # gs2)"
  have "?p \<in> set ?sorted"
    by simp
  from split_list [OF this] obtain xs ys where decomp: "?sorted = xs @ ?p # ys"
    by blast
  have eq: "PropertyParser_sort localeCompare (pre @ block @ [Property k v l] @ post) =
      emit_groups xs @ block @ [Property k v l] @ (emit_groups ys @ pendingComments)"
    by (simp add: PropertyParser_sort_def s3 decomp del: fold_append)
  from fold_group_step_ok [of "([], [])" "pre @ block @ Property k v l # post"] s3
  have "list_all group_ok (gs1 @ ?p # gs2)"
    by simp
  then have "list_all group_ok ?sorted"
    by (simp add: list_all_iff)
  then have "list_all group_ok xs"
    by (simp add: decomp)
  then have "emit_groups xs = [] \<or> isProperty (last (emit_groups xs))"
    by (rule emit_groups_ends_in_property)
  with eq show ?thesis
    by blast
qed

lemma note_example_parse:
  "PropertyParser_parse (js ''# note'' @ [0x0A] @ js ''zeta=1'' @ [0x0A] @ js ''alpha=2'') =
     Inr [Comment (js ''# note''),
          Property (js ''zeta'') (js ''1'') (js ''zeta=1''),
          Property (js ''alpha'') (js ''2'') (js ''alpha=2'')]"
  by code_simp

lemma note_example_sort:
  assumes "compare localeCompare (js ''alpha'') (js ''zeta'') = Less"
  shows "PropertyParser_sort localeCompare
     [Comment (js ''# note''),
      Property (js ''zeta'') (js ''1'') (js ''zeta=1''),
      Property (js ''alpha'') (js ''2'') (js ''alpha=2'')] =
     [Property (js ''alpha'') (js ''2'') (js ''alpha=2''),
      Comment (js ''# note''),
      Property (js ''zeta'') (js ''1'') (js ''zeta=1'')]"
proof -
  from assms have "compare localeCompare (js ''zeta'') (js ''alpha'') = Greater"
    by (simp add: compare.greater_iff_sym_less)
  then show ?thesis
    by (simp add: PropertyParser_sort_def)
qed


text \<open>
  Claim C9. \<open>PropertyParser.sort\<close> returns a permutation of its input: every entry of a
  list of blank, comment and property entries occurs in the output as often as in the
  input.
\<close>

theorem PropertyParser_sort_permutation:
  "mset (PropertyParser_sort localeCompare entries) = mset entries
   \<and> length (PropertyParser_sort localeCompare entries) = length entries
   \<and> set (PropertyParser_sort localeCompare entries) = set entries"
proof -
  have m: "mset (PropertyParser_sort localeCompare entries) = mset entries"
    by (rule mset_PropertyParser_sort)
  from m have "length (PropertyParser_sort localeCompare entries) = length entries"
    by (rule mset_eq_length)
  moreover from m have "set (PropertyParser_sort localeCompare entries) = set entries"
    by (rule mset_eq_setD)
  ultimately show ?thesis
    using m by simp
qed

text \<open>
  Claim C6. \<open>PropertyParser.sort\<close> keeps the block of comments and blanks that
  immediately precedes a property attached to it: in the output the block stands
  directly before the property, and directly after another property or at the start. For the text \<open># note\<close>, \<open>zeta=1\<close>, \<open>alpha=2\<close> (three lines) and a
  collation that puts \<open>alpha\<close> before \<open>zeta\<close>, the sorted parse is \<open>alpha=2\<close>, the
  comment \<open># note\<close>, \<open>zeta=1\<close>.
\<close>

theorem sort_keeps_comment_block:
  assumes "list_all (\<lambda>e. \<not> isProperty e) block"
    and "pre = [] \<or> isProperty (last pre)"
    and "compare localeCompare (js ''alpha'') (js ''zeta'') = Less"
  shows "(\<exists>before after.
            PropertyParser_sort localeCompare (pre @ block @ [Property k v l] @ post) =
              before @ block @ [Property k v l] @ after \<and>
            (before = [] \<or> isProperty (last before))) \<and>
         map_sum id (PropertyParser_sort localeCompare)
           (PropertyParser_parse (js ''# note'' @ [0x0A] @ js ''zeta=1'' @ [0x0A] @ js ''alpha=2'')) =
         Inr [Property (js ''alpha'') (js ''2'') (js ''alpha=2''),
              Comment (js ''# note''),
              Property (js ''zeta'') (js ''1'') (js ''zeta=1'')]"
  using sort_keeps_block [OF assms(1,2)] note_example_sort [OF assms(3)]
  by (simp only: note_example_parse map_sum.simps id_apply)

theorem sort_keeps_comment_block_witness:
  "(\<exists>before after.
      PropertyParser_sort default
        ([] @ [Comment (js ''# note'')] @ [Property (js ''zeta'') (js ''1'') (js ''zeta=1'')]
           @ [Property (js ''alpha'') (js ''2'') (js ''alpha=2'')]) =
      before @ [Comment (js ''# note'')] @ [Property (js ''zeta'') (js ''1'') (js ''zeta=1'')] @ after \<and>
      (before = [] \<or> isProperty (last before))) \<and>
   map_sum id (PropertyParser_sort default)
     (PropertyParser_parse (js ''# note'' @ [0x0A] @ js ''zeta=1'' @ [0x0A] @ js ''alpha=2'')) =
   Inr [Property (js ''alpha'') (js ''2'') (js ''alpha=2''),
        Comment (js ''# note''),
        Property (js ''zeta'') (js ''1'') (js ''zeta=1'')]"
proof -
  have block: "list_all (\<lambda>e. \<not> isProperty e) [Comment (js ''# note'')]"
    by simp
  have pre: "([] :: entry list) = [] \<or> isProperty (last [])"
    by simp
  have order: "compare (default :: jsstring comparator) (js ''alpha'') (js ''zeta'') = Less"
    by (simp add: js_def)
  show ?thesis
    by (rule sort_keeps_comment_block [OF block pre order])
qed

section \<open>PropertyParser.parse\<close>

lemma array_get_in_range [simp]: "i < length xs \<Longrightarrow> array_get xs i = Some (xs ! i)"
  by (simp add: array_get_def)

lemma continuation_loop_bounds:
  "currentIndex < length allLines \<Longrightarrow>
   currentIndex \<le> snd (continuation_loop allLines fullLine currentIndex) \<and>
   snd (continuation_loop allLines fullLine currentIndex) < length allLines"
proof (induction allLines fullLine currentIndex rule: continuation_loop.induct)
  case (1 allLines fullLine currentIndex)
  show ?case
  proof (cases "endsWith (trimEnd fullLine) [0x5C] \<and> currentIndex + 1 < length allLines")
    case True
    with "1.IH" show ?thesis
      by (subst (1 2) continuation_loop.simps) (auto simp: Suc_leD)
  next
    case False
    with "1.prems" show ?thesis
      by (subst (1 2) continuation_loop.simps) auto
  qed
qed

lemma parsePropertyLine_nextIndex:
  assumes "parsePropertyLine line lines i = Some result" "i < length lines"
  shows "i < pl_nextIndex result \<and> pl_nextIndex result \<le> length lines"
proof -
  from assms(1) have "pl_nextIndex result = snd (continuation_loop lines line i) + 1"
    by (auto simp: parsePropertyLine_def split: prod.splits option.splits)
  with continuation_loop_bounds [OF assms(2), of line] show ?thesis
    by simp
qed

lemma drop_chunk:
  assumes "i < n" "n \<le> length xs"
  shows "drop i xs = xs ! i # take (n - Suc i) (drop (Suc i) xs) @ drop n xs"
proof -
  have e: "n - Suc i + Suc i = n"
    using assms by simp
  have "drop i xs = xs ! i # drop (Suc i) xs"
    using assms by (simp add: Cons_nth_drop_Suc)
  also have "drop (Suc i) xs =
      take (n - Suc i) (drop (Suc i) xs) @ drop (n - Suc i) (drop (Suc i) xs)"
    by (simp only: append_take_drop_id)
  also have "drop (n - Suc i) (drop (Suc i) xs) = drop n xs"
    by (simp only: drop_drop e)
  finally show ?thesis .
qed

lemma parse_loop_accounts:
  "i \<le> length lines \<Longrightarrow>
   \<exists>es. parse_loop lines i entries = Inr (entries @ es) \<and> accounts (drop i lines) es"
proof (induction lines i entries rule: parse_loop.induct)
  case (1 lines i entries)
  show ?case
  proof (cases "i < length lines")
    case False
    with "1.prems" have "parse_loop lines i entries = Inr (entries @ [])"
      by (subst parse_loop.simps) simp
    moreover from False "1.prems" have "accounts (drop i lines) []"
      by (simp add: accounts_nil)
    ultimately show ?thesis by blast
  next
    case True
    let ?line = "lines ! i"
    have get: "array_get lines i = Some ?line"
      using True by simp
    have dr: "drop i lines = ?line # drop (Suc i) lines"
      using True by (simp add: Cons_nth_drop_Suc)
    have le: "i + 1 \<le> length lines"
      using True by simp
    show ?thesis
    proof (cases "trim ?line = []")
      case blank: True
      from "1.IH"(1) [OF True get blank le]
      obtain es where es: "parse_loop lines (i + 1) (entries @ [Blank []]) = Inr ((entries @ [Blank []]) @ es)"
        "accounts (drop (i + 1) lines) es"
        by blast
      have "parse_loop lines i entries = Inr (entries @ Blank [] # es)"
        using True get blank es(1) by (subst parse_loop.simps) simp
      moreover have "accounts (drop i lines) (Blank [] # es)"
        using es(2) blank by (simp add: dr accounts_blank)
      ultimately show ?thesis by blast
    next
      case nonblank: False
      show ?thesis
      proof (cases "startsWith (trim ?line) (js ''#'') \<or> startsWith (trim ?line) (js ''!'')")
        case comment: True
        from "1.IH"(2) [OF True get nonblank comment le]
        obtain es where es: "parse_loop lines (i + 1) (entries @ [Comment ?line]) = Inr ((entries @ [Comment ?line]) @ es)"
          "accounts (drop (i + 1) lines) es"
          by blast
        have "parse_loop lines i entries = Inr (entries @ Comment ?line # es)"
          using True get nonblank comment es(1) by (subst parse_loop.simps) simp
        moreover have "accounts (drop i lines) (Comment ?line # es)"
          using es(2) nonblank by (simp add: dr accounts_comment)
        ultimately show ?thesis by blast
      next
        case nocomment: False
        show ?thesis
        proof (cases "parsePropertyLine ?line lines i")
          case None
          from "1.IH"(3) [OF True get nonblank nocomment None le]
          obtain es where es: "parse_loop lines (i + 1) (entries @ [Comment ?line]) = Inr ((entries @ [Comment ?line]) @ es)"
            "accounts (drop (i + 1) lines) es"
            by blast
          have "parse_loop lines i entries = Inr (entries @ Comment ?line # es)"
            using True get nonblank nocomment None es(1) by (subst parse_loop.simps) simp
          moreover have "accounts (drop i lines) (Comment ?line # es)"
            using es(2) nonblank by (simp add: dr accounts_comment)
          ultimately show ?thesis by blast
        next
          case (Some result)
          let ?e = "Property (pl_key result) (pl_value result) (pl_fullLine result)"
          from parsePropertyLine_nextIndex [OF Some True]
          have n: "i < pl_nextIndex result" "pl_nextIndex result \<le> length lines"
            by simp_all
          from "1.IH"(4) [OF True get nonblank nocomment Some n(2)]
          obtain es where es: "parse_loop lines (pl_nextIndex result) (entries @ [?e]) = Inr ((entries @ [?e]) @ es)"
            "accounts (drop (pl_nextIndex result) lines) es"
            by blast
          have "parse_loop lines i entries = Inr (entries @ ?e # es)"
            using True get nonblank nocomment Some es(1) by (subst parse_loop.simps) simp
          moreover have "accounts (drop i lines) (?e # es)"
            using es(2) nonblank drop_chunk [OF n]
            by (simp add: accounts_property)
          ultimately show ?thesis by blast
        qed
      qed
    qed
  qed
qed

lemma parse_loop_malformed:
  assumes "i < length lines" "trim (lines ! i) \<noteq> []"
    "\<not> startsWith (trim (lines ! i)) (js ''#'')" "\<not> startsWith (trim (lines ! i)) (js ''!'')"
    "separatorMatch (fst (continuation_loop lines (lines ! i) i)) = None"
    "spaceMatch (fst (continuation_loop lines (lines ! i) i)) = None"
  shows "parse_loop lines i entries = parse_loop lines (i + 1) (entries @ [Comment (lines ! i)])"
proof -
  have "parsePropertyLine (lines ! i) lines i = None"
    using assms(5,6)
    by (cases "continuation_loop lines (lines ! i) i") (simp add: parsePropertyLine_def)
  with assms(1-4) show ?thesis
    by (subst parse_loop.simps) simp
qed



text \<open>
  Claim C7. \<open>PropertyParser.parse\<close> returns for every string, without the TypeError of
  the model: the result is an entry list that accounts for every physical line as a
  blank, comment or property entry; and a non-blank, non-comment line whose continuation
  matches neither pattern becomes a comment entry carrying the raw line, the loop going
  on with the next physical line.
\<close>

theorem parse_never_throws:
  "(\<exists>entries. PropertyParser_parse text = Inr entries \<and> accounts (split_lines text) entries) \<and>
   (i < length lines \<and> trim (lines ! i) \<noteq> [] \<and>
    \<not> startsWith (trim (lines ! i)) (js ''#'') \<and> \<not> startsWith (trim (lines ! i)) (js ''!'') \<and>
    separatorMatch (fst (continuation_loop lines (lines ! i) i)) = None \<and>
    spaceMatch (fst (continuation_loop lines (lines ! i) i)) = None \<longrightarrow>
    parse_loop lines i entries = parse_loop lines (i + 1) (entries @ [Comment (lines ! i)]))"
proof (intro conjI impI)
  from parse_loop_accounts [of 0 "split_lines text" "[]"]
  show "\<exists>entries. PropertyParser_parse text = Inr entries \<and> accounts (split_lines text) entries"
    by (simp add: PropertyParser_parse_def)
next
  assume "i < length lines \<and> trim (lines ! i) \<noteq> [] \<and>
    \<not> startsWith (trim (lines ! i)) (js ''#'') \<and> \<not> startsWith (trim (lines ! i)) (js ''!'') \<and>
    separatorMatch (fst (continuation_loop lines (lines ! i) i)) = None \<and>
    spaceMatch (fst (continuation_loop lines (lines ! i) i)) = None"
  then show "parse_loop lines i entries = parse_loop lines (i + 1) (entries @ [Comment (lines ! i)])"
    by (intro parse_loop_malformed) simp_all
qed

theorem parse_never_throws_witness:
  "(\<exists>entries. PropertyParser_parse (js ''=x'') = Inr entries \<and>
      accounts (split_lines (js ''=x'')) entries) \<and>
   parse_loop [js ''=x''] 0 [] = parse_loop [js ''=x''] (0 + 1) ([] @ [Comment ([js ''=x''] ! 0)]) \<and>
   PropertyParser_parse (js ''=x'') = Inr [Comment (js ''=x'')]"
proof -
  have hyp: "0 < length [js ''=x''] \<and> trim ([js ''=x''] ! 0) \<noteq> [] \<and>
    \<not> startsWith (trim ([js ''=x''] ! 0)) (js ''#'') \<and>
    \<not> startsWith (trim ([js ''=x''] ! 0)) (js ''!'') \<and>
    separatorMatch (fst (continuation_loop [js ''=x''] ([js ''=x''] ! 0) 0)) = None \<and>
    spaceMatch (fst (continuation_loop [js ''=x''] ([js ''=x''] ! 0) 0)) = None"
    by code_simp
  have parsed: "PropertyParser_parse (js ''=x'') = Inr [Comment (js ''=x'')]"
    by code_simp
  from parse_never_throws [of "js ''=x''" 0 "[js ''=x'']" "[]"] hyp parsed
  show ?thesis
    by blast
qed

section \<open>YAMLParser.parseLevel\<close>


lemma all_dropWhile_iff:
  "(\<forall>x \<in> set (dropWhile P xs). P x) \<longleftrightarrow> (\<forall>x \<in> set xs. P x)"
proof
  assume all: "\<forall>x \<in> set (dropWhile P xs). P x"
  have "dropWhile P xs = []"
  proof (cases "dropWhile P xs")
    case Nil
    then show ?thesis .
  next
    case (Cons c cs)
    then have "\<not> P c"
      using hd_dropWhile [of P xs] by simp
    moreover have "c \<in> set (dropWhile P xs)"
      using Cons by simp
    ultimately show ?thesis
      using all by blast
  qed
  then show "\<forall>x \<in> set xs. P x"
    by (simp only: dropWhile_eq_Nil_conv)
next
  assume "\<forall>x \<in> set xs. P x"
  then show "\<forall>x \<in> set (dropWhile P xs). P x"
    by (blast dest: set_dropWhileD)
qed

lemma trim_empty_iff: "trim s = [] \<longleftrightarrow> list_all isWhiteSpace s"
proof -
  have "trim s = [] \<longleftrightarrow> dropWhile isWhiteSpace (rev (dropWhile isWhiteSpace s)) = []"
    by (simp only: trim_def trimEnd_def trimStart_def rev_is_Nil_conv)
  also have "\<dots> \<longleftrightarrow> (\<forall>x \<in> set (dropWhile isWhiteSpace s). isWhiteSpace x)"
    by (simp only: dropWhile_eq_Nil_conv set_rev)
  also have "\<dots> \<longleftrightarrow> list_all isWhiteSpace s"
    by (simp only: all_dropWhile_iff list_all_iff)
  finally show ?thesis .
qed

lemma search_nonspace_range: "- 1 \<le> search_nonspace s"
  by (simp add: search_nonspace_def Let_def)

lemma takeWhile_short_iff:
  "length (takeWhile P xs) < length xs \<longleftrightarrow> \<not> list_all P xs"
proof -
  have "length (takeWhile P xs) + length (dropWhile P xs) = length xs"
    by (simp only: length_append [symmetric] takeWhile_dropWhile_id)
  then have "length (takeWhile P xs) < length xs \<longleftrightarrow> dropWhile P xs \<noteq> []"
    by (cases "dropWhile P xs") simp_all
  then show ?thesis
    by (simp only: dropWhile_eq_Nil_conv list_all_iff)
qed

lemma search_nonspace_minus_iff: "search_nonspace s = - 1 \<longleftrightarrow> trim s = []"
  by (simp add: search_nonspace_def Let_def trim_empty_iff takeWhile_short_iff)



lemma parseLevel_iteration:
  "(parseLevel lines base cur obj pend = Some (obj, cur) \<and>
      (length lines \<le> cur \<or>
       (trim (lines ! cur) \<noteq> [] \<and> \<not> startsWith (trim (lines ! cur)) (js ''#'') \<and>
        (search_nonspace (lines ! cur) < base \<or>
         (base < search_nonspace (lines ! cur) \<and> base \<noteq> 0)))))
   \<or> (cur < length lines \<and>
        (\<exists>obj' pend'. parseLevel lines base cur obj pend = parseLevel lines base (cur + 1) obj' pend'))
   \<or> (cur < length lines \<and>
        (\<exists>nextIndent f. parseLevel lines base cur obj pend =
            Option.bind (parseLevel lines nextIndent (cur + 1) [] [])
              (\<lambda>nested. parseLevel lines base (snd nested) (f nested) [])))"
  (is "?exit \<or> ?advance \<or> ?recurse")
proof (cases "cur < length lines")
  case False
  then have "parseLevel lines base cur obj pend = Some (obj, cur)"
    by (subst parseLevel.simps) simp
  with False show ?thesis by simp
next
  case inside: True
  let ?line = "lines ! cur"
  let ?trimmed = "trim ?line"
  let ?indent = "search_nonspace ?line"
  have advance: "?thesis"
    if "parseLevel lines base cur obj pend = parseLevel lines base (cur + 1) obj' pend'"
    for obj' pend'
    using that inside by blast
  have recurse: "?thesis"
    if "parseLevel lines base cur obj pend =
          Option.bind (parseLevel lines nextIndent (cur + 1) [] [])
            (\<lambda>nested. parseLevel lines base (snd nested) (f nested) [])"
    for nextIndent f
    using that inside by blast
  show ?thesis
  proof (cases "?trimmed = []")
    case True
    with inside have "parseLevel lines base cur obj pend = parseLevel lines base (cur + 1) obj pend"
      by (subst parseLevel.simps) (simp add: Let_def)
    then show ?thesis by (rule advance)
  next
    case nonblank: False
    show ?thesis
    proof (cases "startsWith ?trimmed (js ''#'')")
      case True
      with inside nonblank
      have "parseLevel lines base cur obj pend =
              parseLevel lines base (cur + 1) obj (pend @ [?trimmed])"
        by (subst parseLevel.simps) (simp add: Let_def)
      then show ?thesis by (rule advance)
    next
      case nocomment: False
      have ind: "?indent \<noteq> - 1"
        using nonblank by (simp add: search_nonspace_minus_iff)
      show ?thesis
      proof (cases "?indent < base \<or> (base < ?indent \<and> base \<noteq> 0)")
        case True
        with inside nonblank nocomment ind
        have "parseLevel lines base cur obj pend = Some (obj, cur)"
          by (subst parseLevel.simps) (auto simp: Let_def)
        with True nonblank nocomment show ?thesis by blast
      next
        case level: False
        show ?thesis
        proof (cases "keyValueMatch ?trimmed")
          case None
          show ?thesis
          proof (cases "startsWith ?trimmed (js ''-'')")
            case True
            with inside nonblank nocomment ind level None
            have "parseLevel lines base cur obj pend =
                parseLevel lines base (cur + 1)
                  (obj_set obj (js ''_array_'' @ decimal cur)
                     (Leaf (trim (drop 1 ?trimmed)) pend)) []"
              by (subst parseLevel.simps) (auto simp: Let_def)
            then show ?thesis by (rule advance)
          next
            case False
            with inside nonblank nocomment ind level None
            have "parseLevel lines base cur obj pend = parseLevel lines base (cur + 1) obj pend"
              by (subst parseLevel.simps) (auto simp: Let_def)
            then show ?thesis by (rule advance)
          qed
        next
          case (Some groups)
          obtain g1 g2 where groups: "groups = (g1, g2)"
            by (cases groups)
          let ?key = "trim g1"
          let ?val = "trim g2"
          show ?thesis
          proof (cases "cur + 1 < length lines")
            case False
            with inside nonblank nocomment ind level Some groups
            have "parseLevel lines base cur obj pend =
                parseLevel lines base (cur + 1) (obj_set obj ?key (Leaf ?val pend)) []"
              by (subst parseLevel.simps) (auto simp: Let_def)
            then show ?thesis by (rule advance)
          next
            case more: True
            let ?nextLine = "lines ! (cur + 1)"
            let ?nextIndent = "search_nonspace ?nextLine"
            show ?thesis
            proof (cases "?nextIndent > ?indent \<and> trim ?nextLine \<noteq> []")
              case True
              with inside nonblank nocomment ind level Some groups more
              have "parseLevel lines base cur obj pend =
                  Option.bind (parseLevel lines ?nextIndent (cur + 1) [] [])
                    (\<lambda>nested. parseLevel lines base (snd nested)
                       (obj_set obj ?key (Branch (fst nested) pend)) [])"
                by (subst parseLevel.simps) (auto simp: Let_def)
              then show ?thesis by (rule recurse)
            next
              case flat: False
              show ?thesis
              proof (cases "?val = []")
                case True
                with inside nonblank nocomment ind level Some groups more flat
                have "parseLevel lines base cur obj pend =
                    parseLevel lines base (cur + 1) (obj_set obj ?key (Leaf [] pend)) []"
                  by (subst parseLevel.simps) (auto simp: Let_def)
                then show ?thesis by (rule advance)
              next
                case False
                with inside nonblank nocomment ind level Some groups more flat
                have "parseLevel lines base cur obj pend =
                    parseLevel lines base (cur + 1) (obj_set obj ?key (Leaf ?val pend)) []"
                  by (subst parseLevel.simps) (auto simp: Let_def)
                then show ?thesis by (rule advance)
              qed
            qed
          qed
        qed
      qed
    qed
  qed
qed



lemma parseLevel_returns:
  "\<exists>obj' cur'. parseLevel lines base cur obj pend = Some (obj', cur') \<and> cur \<le> cur' \<and>
     (cur \<le> length lines \<longrightarrow> cur' \<le> length lines) \<and>
     (base = 0 \<longrightarrow> cur \<le> length lines \<longrightarrow> cur' = length lines)"
proof (induction "length lines - cur" arbitrary: cur base obj pend rule: less_induct)
  case less
  note IH = less.hyps
  from parseLevel_iteration [of lines base cur obj pend]
  consider
    (exit) "parseLevel lines base cur obj pend = Some (obj, cur)"
      "length lines \<le> cur \<or>
       (trim (lines ! cur) \<noteq> [] \<and> \<not> startsWith (trim (lines ! cur)) (js ''#'') \<and>
        (search_nonspace (lines ! cur) < base \<or>
         (base < search_nonspace (lines ! cur) \<and> base \<noteq> 0)))"
  | (advance) obj' pend' where "cur < length lines"
      "parseLevel lines base cur obj pend = parseLevel lines base (cur + 1) obj' pend'"
  | (recurse) nextIndent f where "cur < length lines"
      "parseLevel lines base cur obj pend =
         Option.bind (parseLevel lines nextIndent (cur + 1) [] [])
           (\<lambda>nested. parseLevel lines base (snd nested) (f nested) [])"
    by blast
  then show ?case
  proof cases
    case exit
    have "base = 0 \<Longrightarrow> cur \<le> length lines \<Longrightarrow> cur = length lines"
    proof -
      assume b: "base = 0" and c: "cur \<le> length lines"
      show "cur = length lines"
      proof (rule ccontr)
        assume "cur \<noteq> length lines"
        with c exit(2) b have "trim (lines ! cur) \<noteq> []" "search_nonspace (lines ! cur) < 0"
          by auto
        with search_nonspace_range [of "lines ! cur"] search_nonspace_minus_iff [of "lines ! cur"]
        show False by simp
      qed
    qed
    with exit(1) show ?thesis by simp
  next
    case advance
    have m: "length lines - (cur + 1) < length lines - cur" and le: "cur + 1 \<le> length lines"
      using advance(1) by simp_all
    from IH [OF m, of base obj' pend'] le
    obtain obj'' cur' where "parseLevel lines base (cur + 1) obj' pend' = Some (obj'', cur')"
      "cur + 1 \<le> cur'" "cur' \<le> length lines" "base = 0 \<longrightarrow> cur' = length lines"
      by blast
    with advance show ?thesis by simp
  next
    case recurse
    have m: "length lines - (cur + 1) < length lines - cur" and le: "cur + 1 \<le> length lines"
      using recurse(1) by simp_all
    from IH [OF m, of nextIndent "[]" "[]"] le
    obtain child c2 where nested: "parseLevel lines nextIndent (cur + 1) [] [] = Some (child, c2)"
      "cur + 1 \<le> c2" "c2 \<le> length lines"
      by blast
    have m2: "length lines - c2 < length lines - cur"
      using nested(2) recurse(1) by simp
    from IH [OF m2, of base "f (child, c2)" "[]"] nested(3)
    obtain obj'' cur' where "parseLevel lines base c2 (f (child, c2)) [] = Some (obj'', cur')"
      "c2 \<le> cur'" "cur' \<le> length lines" "base = 0 \<longrightarrow> cur' = length lines"
      by blast
    with recurse nested show ?thesis by simp
  qed
qed

lemma parseLevel_guard_stops:
  assumes "base \<noteq> 0" "cur < length lines" "trim (lines ! cur) \<noteq> []"
    "\<not> startsWith (trim (lines ! cur)) (js ''#'')" "base < search_nonspace (lines ! cur)"
  shows "parseLevel lines base cur obj pend = Some (obj, cur)"
proof -
  have "search_nonspace (lines ! cur) \<noteq> - 1"
    using assms(3) by (simp add: search_nonspace_minus_iff)
  with assms show ?thesis
    by (subst parseLevel.simps) (auto simp: Let_def)
qed

lemma parseLevel_root_consumes_all:
  "cur \<le> length lines \<Longrightarrow> \<exists>obj'. parseLevel lines 0 cur obj pend = Some (obj', length lines)"
  using parseLevel_returns [of lines 0 cur obj pend] by auto

lemma root_indented_example:
  "YAMLParser_parse (js ''  a: 1'') = Some [(js ''a'', Leaf (js ''1'') [])]"
  by code_simp

lemma nested_guard_example:
  "parseLevel [js ''    c: 2''] 2 0 [] [] = Some ([], 0)"
  by code_simp

lemma parseLevel_next_iteration:
  "parseLevel lines base cur obj pend = Some (obj, cur) \<or>
   (\<exists>cur' obj' pend'. cur < cur' \<and>
      parseLevel lines base cur obj pend = parseLevel lines base cur' obj' pend')"
proof -
  from parseLevel_iteration [of lines base cur obj pend]
  consider
    (exit) "parseLevel lines base cur obj pend = Some (obj, cur)"
  | (advance) obj' pend' where
      "parseLevel lines base cur obj pend = parseLevel lines base (cur + 1) obj' pend'"
  | (recurse) nextIndent f where
      "parseLevel lines base cur obj pend =
         Option.bind (parseLevel lines nextIndent (cur + 1) [] [])
           (\<lambda>nested. parseLevel lines base (snd nested) (f nested) [])"
    by blast
  then show ?thesis
  proof cases
    case exit
    then show ?thesis by simp
  next
    case advance
    have "cur < cur + 1" by simp
    with advance show ?thesis by blast
  next
    case recurse
    from parseLevel_returns [of lines nextIndent "cur + 1" "[]" "[]"]
    obtain child c2 where nested: "parseLevel lines nextIndent (cur + 1) [] [] = Some (child, c2)"
      "cur + 1 \<le> c2"
      by auto
    then have "parseLevel lines base cur obj pend = parseLevel lines base c2 (f (child, c2)) []"
      using recurse by simp
    moreover have "cur < c2"
      using nested(2) by simp
    ultimately show ?thesis by blast
  qed
qed

lemma parseLevel_consumes_own_line:
  assumes "cur < length lines" "trim (lines ! cur) \<noteq> []" "search_nonspace (lines ! cur) = base"
  shows "\<exists>obj' cur'. parseLevel lines base cur obj pend = Some (obj', cur') \<and> cur < cur'"
proof -
  from parseLevel_iteration [of lines base cur obj pend] assms
  consider
    (advance) obj' pend' where
      "parseLevel lines base cur obj pend = parseLevel lines base (cur + 1) obj' pend'"
  | (recurse) nextIndent f where
      "parseLevel lines base cur obj pend =
         Option.bind (parseLevel lines nextIndent (cur + 1) [] [])
           (\<lambda>nested. parseLevel lines base (snd nested) (f nested) [])"
    by auto
  then show ?thesis
  proof cases
    case advance
    from parseLevel_returns [of lines base "cur + 1" obj' pend']
    obtain obj'' cur' where "parseLevel lines base (cur + 1) obj' pend' = Some (obj'', cur')"
      "cur + 1 \<le> cur'"
      by auto
    with advance show ?thesis by auto
  next
    case recurse
    from parseLevel_returns [of lines nextIndent "cur + 1" "[]" "[]"]
    obtain child c2 where nested: "parseLevel lines nextIndent (cur + 1) [] [] = Some (child, c2)"
      "cur + 1 \<le> c2"
      by auto
    from parseLevel_returns [of lines base c2 "f (child, c2)" "[]"]
    obtain obj'' cur' where "parseLevel lines base c2 (f (child, c2)) [] = Some (obj'', cur')"
      "c2 \<le> cur'"
      by auto
    with recurse nested show ?thesis by auto
  qed
qed

lemma YAMLParser_parse_returns: "\<exists>obj. YAMLParser_parse text = Some obj"
  using parseLevel_returns [of "split_lines text" 0 0 "[]" "[]"]
  by (auto simp: YAMLParser_parse_def)


text \<open>
  Claim C8. At a content line (not blank, not a comment) indented strictly deeper than
  \<open>baseIndent\<close>, \<open>parseLevel\<close> with a non-zero \<open>baseIndent\<close> returns at once: the
  object as it is and the cursor still on that line. With \<open>baseIndent = 0\<close> the guard is
  off: the call consumes that line and every line after it, returning with the cursor at
  the end of the input; the root level handles such a line itself, as for the one-line
  document \<open>  a: 1\<close>.
\<close>

theorem parseLevel_indent_guard:
  assumes "cur < length lines" and "trim (lines ! cur) \<noteq> []"
    and "\<not> startsWith (trim (lines ! cur)) (js ''#'')"
    and "baseIndent < search_nonspace (lines ! cur)"
  shows "(baseIndent \<noteq> 0 \<longrightarrow> parseLevel lines baseIndent cur obj pend = Some (obj, cur)) \<and>
         (baseIndent = 0 \<longrightarrow>
            (\<exists>obj'. parseLevel lines baseIndent cur obj pend = Some (obj', length lines))) \<and>
         YAMLParser_parse (js ''  a: 1'') = Some [(js ''a'', Leaf (js ''1'') [])]"
proof (intro conjI impI)
  assume "baseIndent \<noteq> 0"
  from parseLevel_guard_stops [OF this assms]
  show "parseLevel lines baseIndent cur obj pend = Some (obj, cur)" .
next
  assume "baseIndent = 0"
  with parseLevel_root_consumes_all [of cur lines obj pend] assms(1)
  show "\<exists>obj'. parseLevel lines baseIndent cur obj pend = Some (obj', length lines)"
    by simp
next
  show "YAMLParser_parse (js ''  a: 1'') = Some [(js ''a'', Leaf (js ''1'') [])]"
    by (rule root_indented_example)
qed

theorem parseLevel_indent_guard_witness:
  "parseLevel [js ''    c: 2''] 2 0 [] [] = Some ([], 0) \<and>
   (\<exists>obj'. parseLevel [js ''    c: 2''] 0 0 [] [] = Some (obj', length [js ''    c: 2'']))"
proof -
  have a1: "0 < length [js ''    c: 2'']"
    by simp
  have a2: "trim ([js ''    c: 2''] ! 0) \<noteq> []"
    by code_simp
  have a3: "\<not> startsWith (trim ([js ''    c: 2''] ! 0)) (js ''#'')"
    by code_simp
  have a4: "2 < search_nonspace ([js ''    c: 2''] ! 0)"
    by code_simp
  have a5: "0 < search_nonspace ([js ''    c: 2''] ! 0)"
    by code_simp
  from parseLevel_indent_guard [OF a1 a2 a3 a4, of "[]" "[]"]
    parseLevel_indent_guard [OF a1 a2 a3 a5, of "[]" "[]"]
  show ?thesis
    by simp
qed

text \<open>
  Claim C10. \<open>YAMLParser.parse\<close> returns for every string. Every call of \<open>parseLevel\<close>
  returns, with a cursor that never moves back; every iteration of its loop either
  leaves the loop or goes on with a strictly larger cursor; and a call started on a
  non-blank line of its own indentation, which is how the recursive call is made,
  consumes at least that line.
\<close>

theorem YAMLParser_parse_terminates:
  "(\<exists>obj. YAMLParser_parse text = Some obj) \<and>
   (\<exists>obj' cur'. parseLevel lines baseIndent cur obj pend = Some (obj', cur') \<and> cur \<le> cur') \<and>
   (parseLevel lines baseIndent cur obj pend = Some (obj, cur) \<or>
    (\<exists>cur' obj' pend'. cur < cur' \<and>
       parseLevel lines baseIndent cur obj pend = parseLevel lines baseIndent cur' obj' pend')) \<and>
   (cur < length lines \<and> trim (lines ! cur) \<noteq> [] \<and> search_nonspace (lines ! cur) = nextIndent \<longrightarrow>
    (\<exists>obj' cur'. parseLevel lines nextIndent cur [] [] = Some (obj', cur') \<and> cur < cur'))"
proof (intro conjI impI)
  show "\<exists>obj. YAMLParser_parse text = Some obj"
    by (rule YAMLParser_parse_returns)
next
  from parseLevel_returns [of lines baseIndent cur obj pend]
  show "\<exists>obj' cur'. parseLevel lines baseIndent cur obj pend = Some (obj', cur') \<and> cur \<le> cur'"
    by blast
next
  show "parseLevel lines baseIndent cur obj pend = Some (obj, cur) \<or>
    (\<exists>cur' obj' pend'. cur < cur' \<and>
       parseLevel lines baseIndent cur obj pend = parseLevel lines baseIndent cur' obj' pend')"
    by (rule parseLevel_next_iteration)
next
  assume "cur < length lines \<and> trim (lines ! cur) \<noteq> [] \<and> search_nonspace (lines ! cur) = nextIndent"
  then show "\<exists>obj' cur'. parseLevel lines nextIndent cur [] [] = Some (obj', cur') \<and> cur < cur'"
    by (intro parseLevel_consumes_own_line) simp_all
qed

theorem YAMLParser_parse_terminates_witness:
  "(\<exists>obj. YAMLParser_parse (js ''a: 1'') = Some obj) \<and>
   (\<exists>obj' cur'. parseLevel [js ''  b: 1''] 2 0 [] [] = Some (obj', cur') \<and> 0 < cur')"
proof -
  have hyp: "0 < length [js ''  b: 1''] \<and> trim ([js ''  b: 1''] ! 0) \<noteq> [] \<and>
      search_nonspace ([js ''  b: 1''] ! 0) = 2"
    by code_simp
  from YAMLParser_parse_terminates [of "js ''a: 1''" "[js ''  b: 1'']" 2 0 "[]" "[]" 2] hyp
  show ?thesis
    by blast
qed

section \<open>YAMLParser.sortRecursively\<close>

text \<open>Own properties of an object after an assignment.\<close>


lemma arrayIndex_inj: "arrayIndex a = Some n \<Longrightarrow> arrayIndex b = Some n \<Longrightarrow> a = b"
  by (metis arrayIndex_def option.distinct(1) option.inject)

lemma index_before_fst: "index_before n = (\<lambda>k. case arrayIndex k of None \<Rightarrow> False | Some n' \<Rightarrow> n' < n) \<circ> fst"
  by (rule ext) (simp add: index_before_def)

lemma map_of_insert_absent:
  assumes "map_of (xs @ ys) k = None"
  shows "map_of (xs @ (k, v) # ys) = (map_of (xs @ ys))(k \<mapsto> v)"
proof (rule ext)
  fix k'
  from assms have "map_of xs k = None"
    by (simp add: map_add_def split: option.splits)
  then show "map_of (xs @ (k, v) # ys) k' = ((map_of (xs @ ys))(k \<mapsto> v)) k'"
    by (simp add: map_add_def split: option.splits)
qed

lemma map_of_obj_set:
  "map_of (obj_set obj k node) =
     (if k = js ''__proto__'' then map_of obj else (map_of obj)(k \<mapsto> node))"
proof (cases "k = js ''__proto__''")
  case True
  then show ?thesis by (simp add: obj_set_def)
next
  case proto: False
  show ?thesis
  proof (cases "map_of obj k")
    case (Some old)
    with proto show ?thesis
      by (simp add: obj_set_def update_conv')
  next
    case None
    show ?thesis
    proof (cases "arrayIndex k")
      case noidx: None
      have "map_of (obj @ [(k, node)]) = (map_of (obj @ []))(k \<mapsto> node)"
        using None by (intro map_of_insert_absent) simp
      with proto None noidx show ?thesis
        by (simp add: obj_set_def)
    next
      case (Some n)
      have "map_of (takeWhile (index_before n) obj @ (k, node) # dropWhile (index_before n) obj) =
          (map_of (takeWhile (index_before n) obj @ dropWhile (index_before n) obj))(k \<mapsto> node)"
        using None by (intro map_of_insert_absent) simp
      with proto None Some show ?thesis
        by (simp add: obj_set_def)
    qed
  qed
qed

lemma keys_obj_set:
  "map fst (obj_set obj k node) =
     (if k = js ''__proto__'' \<or> k \<in> set (map fst obj) then map fst obj
      else (case arrayIndex k of
              None \<Rightarrow> map fst obj @ [k]
            | Some n \<Rightarrow>
                takeWhile (\<lambda>k. case arrayIndex k of None \<Rightarrow> False | Some n' \<Rightarrow> n' < n) (map fst obj)
                @ k # dropWhile (\<lambda>k. case arrayIndex k of None \<Rightarrow> False | Some n' \<Rightarrow> n' < n) (map fst obj)))"
proof (cases "k = js ''__proto__''")
  case True
  then show ?thesis by (simp add: obj_set_def)
next
  case proto: False
  show ?thesis
  proof (cases "map_of obj k")
    case (Some old)
    then have "k \<in> set (map fst obj)"
      by (metis map_of_eq_None_iff option.distinct(1) set_map)
    with proto Some show ?thesis
      by (simp add: obj_set_def update_keys del: set_map)
  next
    case None
    then have absent: "k \<notin> set (map fst obj)"
      by (simp add: map_of_eq_None_iff)
    show ?thesis
    proof (cases "arrayIndex k")
      case noidx: None
      with proto None absent show ?thesis
        by (simp add: obj_set_def del: set_map)
    next
      case (Some n)
      with proto None absent show ?thesis
        by (simp add: obj_set_def takeWhile_map dropWhile_map index_before_fst del: set_map)
    qed
  qed
qed



lemma index_lt_iff:
  "index_lt a b \<longleftrightarrow> (\<exists>m n. arrayIndex a = Some m \<and> arrayIndex b = Some n \<and> m < n)"
  by (auto simp: index_lt_def split: option.splits)

lemma canonical_keys_Nil: "canonical_keys []"
  by (simp add: canonical_keys_def)

lemma canonical_keys_append_nonindex:
  assumes can: "canonical_keys ks" and new: "k \<notin> set ks" "k \<noteq> js ''__proto__''"
    and noidx: "arrayIndex k = None" and le: "\<forall>a \<in> set ks. a \<le> k"
  shows "canonical_keys (ks @ [k])"
proof -
  from can obtain I N where ks: "ks = I @ N"
    and I: "list_all (\<lambda>k. arrayIndex k \<noteq> None) I" "sorted_wrt index_lt I"
    and N: "list_all (\<lambda>k. arrayIndex k = None) N" "sorted_wrt (<) N"
    and proto: "js ''__proto__'' \<notin> set ks"
    by (auto simp: canonical_keys_def)
  have "\<forall>a \<in> set N. a < k"
    using le new(1) ks by (auto simp: less_le)
  then have "sorted_wrt (<) (N @ [k])"
    using N(2) by (simp add: sorted_wrt_append)
  moreover have "list_all (\<lambda>k. arrayIndex k = None) (N @ [k])"
    using N(1) noidx by simp
  moreover have "ks @ [k] = I @ (N @ [k])"
    using ks by simp
  moreover have "js ''__proto__'' \<notin> set (ks @ [k])"
    using proto new(2) by simp
  ultimately show ?thesis
    unfolding canonical_keys_def using I by blast
qed

lemma canonical_keys_insert_index:
  assumes can: "canonical_keys ks" and new: "k \<notin> set ks" "k \<noteq> js ''__proto__''"
    and idx: "arrayIndex k = Some n"
  shows "canonical_keys
     (takeWhile (\<lambda>k. case arrayIndex k of None \<Rightarrow> False | Some n' \<Rightarrow> n' < n) ks
      @ k # dropWhile (\<lambda>k. case arrayIndex k of None \<Rightarrow> False | Some n' \<Rightarrow> n' < n) ks)"
    (is "canonical_keys (takeWhile ?Q ks @ k # dropWhile ?Q ks)")
proof -
  from can obtain I N where ks: "ks = I @ N"
    and I: "list_all (\<lambda>k. arrayIndex k \<noteq> None) I" "sorted_wrt index_lt I"
    and N: "list_all (\<lambda>k. arrayIndex k = None) N" "sorted_wrt (<) N"
    and proto: "js ''__proto__'' \<notin> set ks"
    by (auto simp: canonical_keys_def)
  have QN: "\<not> ?Q a" if "a \<in> set N" for a
    using that N(1) by (simp add: list_all_iff)
  have twN: "takeWhile ?Q N = []" and dwN: "dropWhile ?Q N = N"
    using QN by (cases N; simp)+
  have tw: "takeWhile ?Q ks = takeWhile ?Q I" and dw: "dropWhile ?Q ks = dropWhile ?Q I @ N"
  proof -
    show "takeWhile ?Q ks = takeWhile ?Q I"
    proof (cases "\<forall>a \<in> set I. ?Q a")
      case True
      then have all: "takeWhile ?Q I = I"
        by (simp only: takeWhile_eq_all_conv)
      from True have "takeWhile ?Q (I @ N) = I @ takeWhile ?Q N"
        by (intro takeWhile_append2) blast
      then show ?thesis
        unfolding ks by (simp only: twN all append_Nil2)
    next
      case False
      then show ?thesis
        unfolding ks by auto
    qed
    show "dropWhile ?Q ks = dropWhile ?Q I @ N"
    proof (cases "\<forall>a \<in> set I. ?Q a")
      case True
      then have all: "dropWhile ?Q I = []"
        by (simp only: dropWhile_eq_Nil_conv)
      from True have "dropWhile ?Q (I @ N) = dropWhile ?Q N"
        by (intro dropWhile_append2) blast
      then show ?thesis
        unfolding ks by (simp only: dwN all append_Nil)
    next
      case False
      then show ?thesis
        unfolding ks by auto
    qed
  qed
  have split: "I = takeWhile ?Q I @ dropWhile ?Q I"
    by simp
  have sorted_parts: "sorted_wrt index_lt (takeWhile ?Q I)" "sorted_wrt index_lt (dropWhile ?Q I)"
    and cross: "\<forall>x \<in> set (takeWhile ?Q I). \<forall>y \<in> set (dropWhile ?Q I). index_lt x y"
    using I(2) split sorted_wrt_append [of index_lt "takeWhile ?Q I" "dropWhile ?Q I"]
    by simp_all
  have before: "index_lt x k" if "x \<in> set (takeWhile ?Q I)" for x
    using set_takeWhileD [OF that] idx by (auto simp: index_lt_iff split: option.splits)
  have after: "index_lt k y" if y: "y \<in> set (dropWhile ?Q I)" for y
  proof -
    from y have yI: "y \<in> set I"
      by (rule set_dropWhileD)
    then obtain m where m: "arrayIndex y = Some m"
      using I(1) by (auto simp: list_all_iff)
    from y obtain d ds where d: "dropWhile ?Q I = d # ds"
      by (cases "dropWhile ?Q I") auto
    then have nd: "\<not> ?Q d"
      using hd_dropWhile [of ?Q I] by simp
    have "d \<in> set I"
      using d set_dropWhileD [of d ?Q I] by simp
    then obtain md where md: "arrayIndex d = Some md"
      using I(1) by (auto simp: list_all_iff)
    with nd have "n \<le> md"
      by simp
    moreover have "md \<le> m"
    proof (cases "y = d")
      case True
      with m md show ?thesis by simp
    next
      case False
      with y d have "y \<in> set ds" by simp
      with sorted_parts(2) d have "index_lt d y" by simp
      with m md show ?thesis by (simp add: index_lt_iff)
    qed
    moreover have "m \<noteq> n"
    proof
      assume "m = n"
      with m idx have "y = k"
        by (simp add: arrayIndex_inj)
      with yI new(1) ks show False by simp
    qed
    ultimately have "n < m" by simp
    with m idx show ?thesis
      by (simp add: index_lt_iff)
  qed
  have "sorted_wrt index_lt (takeWhile ?Q I @ k # dropWhile ?Q I)"
    using sorted_parts cross before after by (simp add: sorted_wrt_append)
  moreover have "list_all (\<lambda>k. arrayIndex k \<noteq> None) (takeWhile ?Q I @ k # dropWhile ?Q I)"
    using I(1) idx by (auto simp: list_all_iff dest: set_takeWhileD set_dropWhileD)
  moreover have "takeWhile ?Q ks @ k # dropWhile ?Q ks = (takeWhile ?Q I @ k # dropWhile ?Q I) @ N"
    by (simp add: tw dw)
  moreover have "js ''__proto__'' \<notin> set (takeWhile ?Q ks @ k # dropWhile ?Q ks)"
    using proto new(2) by (auto dest: set_takeWhileD set_dropWhileD)
  ultimately show ?thesis
    unfolding canonical_keys_def using N by blast
qed



lemma canonical_keys_obj_set:
  assumes "canonical_keys (map fst obj)" and "\<forall>a \<in> set (map fst obj). a \<le> k"
  shows "canonical_keys (map fst (obj_set obj k node))"
proof (cases "k = js ''__proto__'' \<or> k \<in> set (map fst obj)")
  case True
  with assms(1) show ?thesis
    by (simp only: keys_obj_set if_True)
next
  case False
  then have new: "k \<notin> set (map fst obj)" "k \<noteq> js ''__proto__''"
    by simp_all
  show ?thesis
  proof (cases "arrayIndex k")
    case None
    from canonical_keys_append_nonindex [OF assms(1) new None assms(2)] False None
    show ?thesis
      by (simp only: keys_obj_set if_False option.case)
  next
    case (Some n)
    from canonical_keys_insert_index [OF assms(1) new Some] False Some
    show ?thesis
      by (simp only: keys_obj_set if_False option.case)
  qed
qed

lemma index_sorted_unique:
  assumes "sorted_wrt index_lt xs" "sorted_wrt index_lt ys" "set xs = set ys"
    and "list_all (\<lambda>k. arrayIndex k \<noteq> None) xs"
  shows "xs = ys"
proof -
  let ?f = "\<lambda>k. the (arrayIndex k)"
  have idx: "arrayIndex k \<noteq> None" if "k \<in> set xs" for k
    using that assms(4) by (simp add: list_all_iff)
  have mono: "?f a < ?f b" if "index_lt a b" for a b
    using that by (auto simp: index_lt_iff)
  have sx: "sorted_wrt (<) (map ?f xs)"
    unfolding sorted_wrt_map
    by (rule sorted_wrt_mono_rel [OF _ assms(1)]) (rule mono)
  have sy: "sorted_wrt (<) (map ?f ys)"
    unfolding sorted_wrt_map
    by (rule sorted_wrt_mono_rel [OF _ assms(2)]) (rule mono)
  have "set (map ?f xs) = set (map ?f ys)"
    using assms(3) by simp
  with sx sy have eq: "map ?f xs = map ?f ys"
    by (simp add: strict_sorted_iff sorted_distinct_set_unique)
  have "inj_on ?f (set xs \<union> set ys)"
  proof (rule inj_onI)
    fix a b assume "a \<in> set xs \<union> set ys" "b \<in> set xs \<union> set ys" "?f a = ?f b"
    with assms(3) idx [of a] idx [of b] show "a = b"
      by (auto intro: arrayIndex_inj)
  qed
  with eq show ?thesis
    by (simp add: inj_on_map_eq_map)
qed

lemma canonical_keys_unique:
  assumes "canonical_keys xs" "canonical_keys ys" "set xs = set ys"
  shows "xs = ys"
proof -
  from assms(1) obtain I N where xs: "xs = I @ N"
    and I: "list_all (\<lambda>k. arrayIndex k \<noteq> None) I" "sorted_wrt index_lt I"
    and N: "list_all (\<lambda>k. arrayIndex k = None) N" "sorted_wrt (<) N"
    by (auto simp: canonical_keys_def)
  from assms(2) obtain I' N' where ys: "ys = I' @ N'"
    and I': "list_all (\<lambda>k. arrayIndex k \<noteq> None) I'" "sorted_wrt index_lt I'"
    and N': "list_all (\<lambda>k. arrayIndex k = None) N'" "sorted_wrt (<) N'"
    by (auto simp: canonical_keys_def)
  have "set I = {k \<in> set xs. arrayIndex k \<noteq> None}"
    using I(1) N(1) xs by (auto simp: list_all_iff)
  moreover have "set I' = {k \<in> set ys. arrayIndex k \<noteq> None}"
    using I'(1) N'(1) ys by (auto simp: list_all_iff)
  ultimately have "set I = set I'"
    using assms(3) by simp
  with I I' have "I = I'"
    by (intro index_sorted_unique)
  have "set N = {k \<in> set xs. arrayIndex k = None}"
    using I(1) N(1) xs by (auto simp: list_all_iff)
  moreover have "set N' = {k \<in> set ys. arrayIndex k = None}"
    using I'(1) N'(1) ys by (auto simp: list_all_iff)
  ultimately have "set N = set N'"
    using assms(3) by simp
  with N(2) N'(2) have "N = N'"
    by (simp add: strict_sorted_iff sorted_distinct_set_unique)
  with \<open>I = I'\<close> xs ys show ?thesis by simp
qed

lemma canonical_keys_distinct:
  assumes "canonical_keys ks"
  shows "distinct ks"
proof -
  from assms obtain I N where ks: "ks = I @ N"
    and I: "list_all (\<lambda>k. arrayIndex k \<noteq> None) I" "sorted_wrt index_lt I"
    and N: "list_all (\<lambda>k. arrayIndex k = None) N" "sorted_wrt (<) N"
    by (auto simp: canonical_keys_def)
  have "index_lt a b \<Longrightarrow> the (arrayIndex a) < the (arrayIndex b)" for a b
    by (auto simp: index_lt_iff)
  then have "sorted_wrt (<) (map (\<lambda>k. the (arrayIndex k)) I)"
    unfolding sorted_wrt_map
    by (intro sorted_wrt_mono_rel [OF _ I(2)])
  then have "distinct (map (\<lambda>k. the (arrayIndex k)) I)"
    by (simp add: strict_sorted_iff)
  then have "distinct I"
    by (simp add: distinct_map)
  moreover have "distinct N"
    using N(2) by (simp add: strict_sorted_iff)
  moreover have "set I \<inter> set N = {}"
    using I(1) N(1) by (auto simp: list_all_iff)
  ultimately show ?thesis
    by (simp add: ks)
qed

lemma obj_from_keys:
  "distinct (map fst obj) \<Longrightarrow> map (\<lambda>k. (k, the (map_of obj k))) (map fst obj) = obj"
proof (induction obj)
  case Nil
  then show ?case by simp
next
  case (Cons p obj)
  obtain k v where p: "p = (k, v)" by (cases p)
  from Cons.prems have "k \<notin> fst ` set obj" and d: "distinct (map fst obj)"
    by (simp_all add: p)
  then have "map (\<lambda>k'. (k', the (map_of ((k, v) # obj) k'))) (map fst obj) =
      map (\<lambda>k'. (k', the (map_of obj k'))) (map fst obj)"
    by (intro map_cong) auto
  with Cons.IH [OF d] show ?case
    by (simp add: p)
qed

lemma canonical_obj_unique:
  assumes "canonical_keys (map fst a)" "canonical_keys (map fst b)" "map_of a = map_of b"
  shows "a = b"
proof -
  have "set (map fst a) = set (map fst b)"
    using assms(3) dom_map_of_conv_image_fst [of a] dom_map_of_conv_image_fst [of b] by simp
  with assms(1,2) have keys: "map fst a = map fst b"
    by (rule canonical_keys_unique)
  have "a = map (\<lambda>k. (k, the (map_of a k))) (map fst a)"
    using canonical_keys_distinct [OF assms(1)] by (simp only: obj_from_keys)
  also have "\<dots> = map (\<lambda>k. (k, the (map_of b k))) (map fst b)"
    by (simp only: keys assms(3))
  also have "\<dots> = b"
    using canonical_keys_distinct [OF assms(2)] by (simp only: obj_from_keys)
  finally show ?thesis .
qed

text \<open>Assigning the keys of a sorted list one after the other keeps the object in canonical
  key order and stores the given value under every key but \<open>__proto__\<close>.\<close>

lemma fold_obj_set_canonical:
  assumes "sorted_wrt (\<le>) ks" "canonical_keys (map fst acc)"
    and "\<forall>a \<in> set (map fst acc). \<forall>k \<in> set ks. a \<le> k"
  shows "canonical_keys (map fst (fold (\<lambda>k acc. obj_set acc k (g k)) ks acc)) \<and>
     map_of (fold (\<lambda>k acc. obj_set acc k (g k)) ks acc) =
       (\<lambda>k. if k \<in> set ks \<and> k \<noteq> js ''__proto__'' then Some (g k) else map_of acc k)"
  using assms
proof (induction ks arbitrary: acc)
  case Nil
  then show ?case by simp
next
  case (Cons k ks)
  let ?acc = "obj_set acc k (g k)"
  have can: "canonical_keys (map fst ?acc)"
    using Cons.prems(2,3) by (intro canonical_keys_obj_set) simp_all
  have "dom (map_of ?acc) \<subseteq> insert k (dom (map_of acc))"
    by (auto simp: map_of_obj_set split: if_splits)
  then have sub: "set (map fst ?acc) \<subseteq> insert k (set (map fst acc))"
    by (simp only: dom_map_of_conv_image_fst set_map)
  have le: "\<forall>a \<in> set (map fst ?acc). \<forall>k' \<in> set ks. a \<le> k'"
  proof (intro ballI)
    fix a k' assume a: "a \<in> set (map fst ?acc)" and k': "k' \<in> set ks"
    from a sub have "a = k \<or> a \<in> set (map fst acc)"
      by blast
    then show "a \<le> k'"
    proof
      assume "a = k"
      with Cons.prems(1) k' show ?thesis by simp
    next
      assume "a \<in> set (map fst acc)"
      with Cons.prems(3) k' show ?thesis by auto
    qed
  qed
  from Cons.prems(1) have "sorted_wrt (\<le>) ks"
    by simp
  from Cons.IH [OF this can le]
  have ih: "canonical_keys (map fst (fold (\<lambda>k acc. obj_set acc k (g k)) ks ?acc))"
    "map_of (fold (\<lambda>k acc. obj_set acc k (g k)) ks ?acc) =
       (\<lambda>k'. if k' \<in> set ks \<and> k' \<noteq> js ''__proto__'' then Some (g k') else map_of ?acc k')"
    by simp_all
  show ?case
  proof
    show "canonical_keys (map fst (fold (\<lambda>k acc. obj_set acc k (g k)) (k # ks) acc))"
      using ih(1) by simp
    show "map_of (fold (\<lambda>k acc. obj_set acc k (g k)) (k # ks) acc) =
       (\<lambda>k'. if k' \<in> set (k # ks) \<and> k' \<noteq> js ''__proto__'' then Some (g k') else map_of acc k')"
      by (rule ext) (simp add: ih(2) map_of_obj_set)
  qed
qed

lemma sortRecursively_fold:
  "sortRecursively obj =
     fold (\<lambda>k acc. obj_set acc k (sortItem (the (map_of obj k)))) (sort_key (\<lambda>k. k) (map fst obj)) []"
proof -
  have "fold (\<lambda>key sorted.
             (case map_of obj key of
                None \<Rightarrow> sorted
              | Some (Branch children comments) \<Rightarrow>
                  obj_set sorted key (Branch (sortRecursively children) comments)
              | Some (Leaf v comments) \<Rightarrow> obj_set sorted key (Leaf v comments)))
       (sort_key (\<lambda>k. k) (map fst obj)) [] =
     fold (\<lambda>k acc. obj_set acc k (sortItem (the (map_of obj k)))) (sort_key (\<lambda>k. k) (map fst obj)) []"
  proof (rule fold_cong [OF refl refl])
    fix k assume "k \<in> set (sort_key (\<lambda>k. k) (map fst obj))"
    then have "map_of obj k \<noteq> None"
      by (simp add: map_of_eq_None_iff)
    then show "(\<lambda>sorted. case map_of obj k of
                None \<Rightarrow> sorted
              | Some (Branch children comments) \<Rightarrow>
                  obj_set sorted k (Branch (sortRecursively children) comments)
              | Some (Leaf v comments) \<Rightarrow> obj_set sorted k (Leaf v comments)) =
          (\<lambda>acc. obj_set acc k (sortItem (the (map_of obj k))))"
      by (auto split: option.splits ynode.splits)
  qed
  then show ?thesis
    by (subst sortRecursively.simps) simp
qed

lemma sortRecursively_canonical:
  "canonical_keys (map fst (sortRecursively obj)) \<and>
   map_of (sortRecursively obj) =
     (\<lambda>k. if k \<in> set (map fst obj) \<and> k \<noteq> js ''__proto__''
          then Some (sortItem (the (map_of obj k))) else None)"
proof -
  have "sorted_wrt (\<le>) (sort_key (\<lambda>k. k) (map fst obj))"
    using sorted_sort_key [of "\<lambda>k. k" "map fst obj"] by simp
  from fold_obj_set_canonical [OF this, of "[]" "\<lambda>k. sortItem (the (map_of obj k))"]
  have "canonical_keys (map fst (sortRecursively obj))"
    and "map_of (sortRecursively obj) =
      (\<lambda>k. if k \<in> set (linorder_class.sort_key (\<lambda>k. k) (map fst obj)) \<and> k \<noteq> js ''__proto__''
           then Some (sortItem (the (map_of obj k))) else map_of [] k)"
    by (simp_all add: sortRecursively_fold canonical_keys_Nil del: set_map set_sort)
  then show ?thesis
    by (simp del: set_map cong: if_cong)
qed




lemma sortRecursively_idem: "sortRecursively (sortRecursively obj) = sortRecursively obj"
proof (induction obj rule: sortRecursively.induct)
  case (1 obj)
  let ?proto = "js ''__proto__''"
  let ?o1 = "sortRecursively obj"
  have item: "sortItem (sortItem (the (map_of obj k))) = sortItem (the (map_of obj k))"
    if k: "k \<in> set (map fst obj)" for k
  proof -
    from k obtain node where node: "map_of obj k = Some node"
      by (metis map_of_eq_None_iff not_Some_eq set_map)
    show ?thesis
    proof (cases node)
      case (Leaf v cs)
      with node show ?thesis by simp
    next
      case (Branch ch cs)
      have "k \<in> set (sort_key (\<lambda>k. k) (map fst obj))"
        using k by simp
      from "1.IH" [OF this node Branch]
      have "sortRecursively (sortRecursively ch) = sortRecursively ch" .
      with node Branch show ?thesis by simp
    qed
  qed
  have can1: "canonical_keys (map fst ?o1)"
    and m1: "map_of ?o1 = (\<lambda>k. if k \<in> set (map fst obj) \<and> k \<noteq> ?proto
          then Some (sortItem (the (map_of obj k))) else None)"
    using sortRecursively_canonical [of obj] by simp_all
  have can2: "canonical_keys (map fst (sortRecursively ?o1))"
    and m2: "map_of (sortRecursively ?o1) = (\<lambda>k. if k \<in> set (map fst ?o1) \<and> k \<noteq> ?proto
          then Some (sortItem (the (map_of ?o1 k))) else None)"
    using sortRecursively_canonical [of ?o1] by simp_all
  have keys1: "k \<in> set (map fst ?o1) \<longleftrightarrow> k \<in> set (map fst obj) \<and> k \<noteq> ?proto" for k
  proof -
    have "k \<in> set (map fst ?o1) \<longleftrightarrow> map_of ?o1 k \<noteq> None"
      by (simp add: map_of_eq_None_iff)
    then show ?thesis
      by (simp add: m1 del: set_map)
  qed
  have "map_of (sortRecursively ?o1) = map_of ?o1"
  proof (rule ext)
    fix k
    show "map_of (sortRecursively ?o1) k = map_of ?o1 k"
    proof (cases "k \<in> set (map fst obj) \<and> k \<noteq> ?proto")
      case True
      then have "map_of ?o1 k = Some (sortItem (the (map_of obj k)))"
        by (simp add: m1 del: set_map)
      moreover from True have "map_of (sortRecursively ?o1) k = Some (sortItem (the (map_of ?o1 k)))"
        by (simp add: m2 keys1 del: set_map)
      ultimately show ?thesis
        using True item [of k] by simp
    next
      case False
      then have "map_of ?o1 k = None"
        by (simp add: m1 del: set_map)
      moreover from False have "map_of (sortRecursively ?o1) k = None"
        by (simp add: m2 keys1 del: set_map)
      ultimately show ?thesis by simp
    qed
  qed
  with can2 can1 show ?case
    by (rule canonical_obj_unique)
qed


text \<open>
  Claim C5. Both canonicalisation sorts are idempotent: \<open>PropertyParser.sort\<close> on every
  entry list (for every consistent \<open>localeCompare\<close>) and \<open>YAMLParser.sortRecursively\<close> on
  every object of parsed nodes.
\<close>

theorem canonical_sorts_idempotent:
  "PropertyParser_sort localeCompare (PropertyParser_sort localeCompare entries) =
     PropertyParser_sort localeCompare entries \<and>
   sortRecursively (sortRecursively obj) = sortRecursively obj"
  using PropertyParser_sort_idem [of localeCompare entries] sortRecursively_idem [of obj]
  by (rule conjI)

section \<open>DiffEngine.compare\<close>


lemma set_of_array_acc:
  "set (fold (\<lambda>x s. if x \<in> set s then s else s @ [x]) xs acc) = set acc \<union> set xs \<and>
   (distinct acc \<longrightarrow> distinct (fold (\<lambda>x s. if x \<in> set s then s else s @ [x]) xs acc))"
  by (induction xs arbitrary: acc) auto

lemma set_set_of_array [simp]: "set (set_of_array xs) = set xs"
  using set_of_array_acc [of xs "[]"] by (simp add: set_of_array_def)

lemma distinct_set_of_array [simp]: "distinct (set_of_array xs)"
  using set_of_array_acc [of xs "[]"] by (simp add: set_of_array_def)

lemma set_sortedKeys:
  "set (sortedKeys leftEntries rightEntries) = set (map_keys leftEntries) \<union> set (map_keys rightEntries)"
  by (simp add: sortedKeys_def)

lemma strict_sorted_sortedKeys: "sorted_wrt (<) (sortedKeys leftEntries rightEntries)"
  by (simp add: sortedKeys_def strict_sorted_iff)

lemma sortedKeys_commute: "sortedKeys rightEntries leftEntries = sortedKeys leftEntries rightEntries"
proof -
  have "set (sortedKeys rightEntries leftEntries) = set (sortedKeys leftEntries rightEntries)"
    by (auto simp: set_sortedKeys)
  then show ?thesis
    using strict_sorted_sortedKeys [of rightEntries leftEntries]
      strict_sorted_sortedKeys [of leftEntries rightEntries]
    by (simp add: strict_sorted_iff sorted_distinct_set_unique)
qed

lemma fold_push: "fold (\<lambda>k diffResults. diffResults @ [f k]) ks acc = acc @ map f ks"
  by (induction ks arbitrary: acc) simp_all

lemma compare_maps_map:
  "compare_maps leftEntries rightEntries ft =
     map (compare_row leftEntries rightEntries ft) (sortedKeys leftEntries rightEntries)"
  by (simp add: compare_maps_def fold_push)

lemma map_has_iff: "map_has m k \<longleftrightarrow> k \<in> set (map_keys m)"
  by (simp add: map_has_def map_keys_def map_of_eq_None_iff)

lemma compare_row_status:
  "row_status (compare_row leftEntries rightEntries ft k) =
     (if \<not> map_has leftEntries k \<and> map_has rightEntries k then Added
      else if map_has leftEntries k \<and> \<not> map_has rightEntries k then Removed
      else if map_get leftEntries k \<noteq> map_get rightEntries k then Modified
      else Unchanged)"
  by (auto simp: compare_row_def Let_def map_has_def map_get_def)



lemma compare_row_empty_side:
  "\<not> map_has leftEntries k \<Longrightarrow> map_has rightEntries k \<Longrightarrow>
   leftLine (compare_row leftEntries rightEntries ft k) = []"
  "map_has leftEntries k \<Longrightarrow> \<not> map_has rightEntries k \<Longrightarrow>
   rightLine (compare_row leftEntries rightEntries ft k) = []"
  by (auto simp: compare_row_def Let_def)

text \<open>The two character diffs of a pair of strings, taken in either order.\<close>

lemma highlight_swap_text:
  "map seg_text (fst (highlightDifferences (Some b) (Some a))) =
     map seg_text (snd (highlightDifferences (Some a) (Some b)))"
  "map seg_text (snd (highlightDifferences (Some b) (Some a))) =
     map seg_text (fst (highlightDifferences (Some a) (Some b)))"
  "unchanged_count (fst (highlightDifferences (Some b) (Some a))) =
     unchanged_count (snd (highlightDifferences (Some a) (Some b)))"
  "unchanged_count (snd (highlightDifferences (Some b) (Some a))) =
     unchanged_count (fst (highlightDifferences (Some a) (Some b)))"
  using highlightDifferences_spec [of a b] highlightDifferences_spec [of b a]
    lcsLen_commute [of a b "length a" "length b"]
  by simp_all



lemma compare_row_swapped:
  "row_swapped (compare_row leftEntries rightEntries ft k) (compare_row rightEntries leftEntries ft k)"
proof (cases "map_of leftEntries k")
  case None
  note l = None
  show ?thesis
  proof (cases "map_of rightEntries k")
    case None
    with l show ?thesis
      by (simp add: compare_row_def Let_def map_has_def map_get_def row_swapped_def segments_of_def)
  next
    case (Some b)
    with l show ?thesis
      by (simp add: compare_row_def Let_def map_has_def map_get_def row_swapped_def segments_of_def)
  qed
next
  case (Some a)
  note l = Some
  show ?thesis
  proof (cases "map_of rightEntries k")
    case None
    with l show ?thesis
      by (simp add: compare_row_def Let_def map_has_def map_get_def row_swapped_def segments_of_def)
  next
    case (Some b)
    show ?thesis
    proof (cases "a = b")
      case True
      with l Some show ?thesis
        by (simp add: compare_row_def Let_def map_has_def map_get_def row_swapped_def segments_of_def)
    next
      case False
      have roles: "list_all (\<lambda>s. seg_type s \<noteq> AddedSeg) (fst (highlightDifferences (Some b) (Some a)))"
        "list_all (\<lambda>s. seg_type s \<noteq> RemovedSeg) (snd (highlightDifferences (Some b) (Some a)))"
        using highlightDifferences_spec [of b a] by (auto simp: list_all_iff)
      from False l Some roles highlight_swap_text [of b a] show ?thesis
        by (simp add: compare_row_def Let_def map_has_def map_get_def row_swapped_def segments_of_def)
    qed
  qed
qed

lemma leftEntries_swapArgs [simp]: "leftEntries_of (swapArgs args) = rightEntries_of args"
  by (cases args) simp_all

lemma rightEntries_swapArgs [simp]: "rightEntries_of (swapArgs args) = leftEntries_of args"
  by (cases args) simp_all

lemma fileType_swapArgs [simp]: "args_fileType (swapArgs args) = args_fileType args"
  by (cases args) simp_all

text \<open>The reference copy classifies by key presence: the row of the \<open>i\<close>-th sorted key.\<close>

lemma compare_presence_classification:
  assumes "i < length (sortedKeys (leftEntries_of args) (rightEntries_of args))"
  shows "row_status (DiffEngine_compare args ! i) =
     (let k = sortedKeys (leftEntries_of args) (rightEntries_of args) ! i;
          onLeft = k \<in> set (map_keys (leftEntries_of args));
          onRight = k \<in> set (map_keys (rightEntries_of args))
      in if onLeft \<and> onRight then
           (if map_get (leftEntries_of args) k = map_get (rightEntries_of args) k
            then Unchanged else Modified)
         else if onRight then Added else Removed)"
proof -
  let ?k = "sortedKeys (leftEntries_of args) (rightEntries_of args) ! i"
  have "?k \<in> set (sortedKeys (leftEntries_of args) (rightEntries_of args))"
    using assms by simp
  then have "?k \<in> set (map_keys (leftEntries_of args)) \<or> ?k \<in> set (map_keys (rightEntries_of args))"
    by (simp add: set_sortedKeys)
  then show ?thesis
    using assms
    by (auto simp: DiffEngine_compare_def compare_maps_map compare_row_status map_has_iff Let_def)
qed

text \<open>
  Claim C1, on the copy of \<open>compare\<close> in \<open>app.js\<close>. The texts \<open>a=\<close> and \<open>a=1\<close>
  parse to one property each, so the key \<open>a\<close> is present on both sides, with the empty
  string as its left value. \<open>app.js\<close> classifies the key as added, with an empty left
  line; the reference copy classifies it as modified. With the key absent on the left
  (the text \<open># c\<close>) and present with the empty value on the right, \<open>app.js\<close> takes the
  modified branch and its character differ raises the TypeError; the reference copy
  classifies the key as added.
\<close>

theorem compare_app_js_classifies_by_truthiness:
  "PropertyParser_parse (js ''a='') = Inr [Property (js ''a'') [] (js ''a='')] \<and>
   PropertyParser_parse (js ''a=1'') = Inr [Property (js ''a'') (js ''1'') (js ''a=1'')] \<and>
   map_has (propertiesToMap_app_js [Property (js ''a'') [] (js ''a='')]) (js ''a'') \<and>
   map_has (propertiesToMap_app_js [Property (js ''a'') (js ''1'') (js ''a=1'')]) (js ''a'') \<and>
   DiffEngine_compare_app_js
     (PropertiesArgs [Property (js ''a'') [] (js ''a='')] [Property (js ''a'') (js ''1'') (js ''a=1'')]) =
   Inr [\<lparr>row_status = Added, leftLine = [], rightLine = js ''a=1'',
         leftHighlight = None, rightHighlight = None, row_key = None, row_fileType = None\<rparr>] \<and>
   map row_status (DiffEngine_compare
     (PropertiesArgs [Property (js ''a'') [] (js ''a='')] [Property (js ''a'') (js ''1'') (js ''a=1'')])) =
   [Modified] \<and>
   PropertyParser_parse (js ''# c'') = Inr [Comment (js ''# c'')] \<and>
   DiffEngine_compare_app_js
     (PropertiesArgs [Comment (js ''# c'')] [Property (js ''a'') [] (js ''a='')]) = Inl TypeError \<and>
   map row_status (DiffEngine_compare
     (PropertiesArgs [Comment (js ''# c'')] [Property (js ''a'') [] (js ''a='')])) = [Added]"
proof -
  have parsed: "PropertyParser_parse (js ''a='') = Inr [Property (js ''a'') [] (js ''a='')]"
    "PropertyParser_parse (js ''a=1'') = Inr [Property (js ''a'') (js ''1'') (js ''a=1'')]"
    "PropertyParser_parse (js ''# c'') = Inr [Comment (js ''# c'')]"
    by code_simp+
  have present: "map_has (propertiesToMap_app_js [Property (js ''a'') [] (js ''a='')]) (js ''a'')"
    "map_has (propertiesToMap_app_js [Property (js ''a'') (js ''1'') (js ''a=1'')]) (js ''a'')"
    by code_simp+
  have app_js: "DiffEngine_compare_app_js
     (PropertiesArgs [Property (js ''a'') [] (js ''a='')] [Property (js ''a'') (js ''1'') (js ''a=1'')]) =
     Inr [\<lparr>row_status = Added, leftLine = [], rightLine = js ''a=1'',
           leftHighlight = None, rightHighlight = None, row_key = None, row_fileType = None\<rparr>]"
    "DiffEngine_compare_app_js
     (PropertiesArgs [Comment (js ''# c'')] [Property (js ''a'') [] (js ''a='')]) = Inl TypeError"
    by code_simp+
  have reference: "map row_status (DiffEngine_compare
     (PropertiesArgs [Property (js ''a'') [] (js ''a='')] [Property (js ''a'') (js ''1'') (js ''a=1'')])) =
     [Modified]"
    "map row_status (DiffEngine_compare
     (PropertiesArgs [Comment (js ''# c'')] [Property (js ''a'') [] (js ''a='')])) = [Added]"
    by code_simp+
  from parsed present app_js reference show ?thesis
    by (intro conjI)
qed



text \<open>
  Claim C3 as stated fails on the segment roles: for the values \<open>ab\<close> and \<open>ba\<close> of one
  key the row is modified in both orders, but the left segments after the swap (\<open>b\<close>
  removed, \<open>a\<close> unchanged) are not the right segments before the swap with the roles
  exchanged (\<open>b\<close> unchanged, \<open>a\<close> removed): on a tie the backtracking consumes the right
  string first, whichever input that is.
\<close>

theorem compare_swap_roles_counterexample:
  "map row_status (DiffEngine_compare
      (PropertiesArgs [Property (js ''k'') (js ''ab'') (js ''k=ab'')]
                      [Property (js ''k'') (js ''ba'') (js ''k=ba'')])) = [Modified] \<and>
   map row_status (DiffEngine_compare (swapArgs
      (PropertiesArgs [Property (js ''k'') (js ''ab'') (js ''k=ab'')]
                      [Property (js ''k'') (js ''ba'') (js ''k=ba'')]))) = [Modified] \<and>
   map rightHighlight (DiffEngine_compare
      (PropertiesArgs [Property (js ''k'') (js ''ab'') (js ''k=ab'')]
                      [Property (js ''k'') (js ''ba'') (js ''k=ba'')])) =
     [Some [\<lparr>seg_text = 0x62, seg_type = UnchangedSeg\<rparr>, \<lparr>seg_text = 0x61, seg_type = AddedSeg\<rparr>]] \<and>
   map leftHighlight (DiffEngine_compare (swapArgs
      (PropertiesArgs [Property (js ''k'') (js ''ab'') (js ''k=ab'')]
                      [Property (js ''k'') (js ''ba'') (js ''k=ba'')]))) =
     [Some [\<lparr>seg_text = 0x62, seg_type = RemovedSeg\<rparr>, \<lparr>seg_text = 0x61, seg_type = UnchangedSeg\<rparr>]] \<and>
   map leftHighlight (DiffEngine_compare (swapArgs
      (PropertiesArgs [Property (js ''k'') (js ''ab'') (js ''k=ab'')]
                      [Property (js ''k'') (js ''ba'') (js ''k=ba'')]))) \<noteq>
     map (map_option (map swap_segment) \<circ> rightHighlight) (DiffEngine_compare
      (PropertiesArgs [Property (js ''k'') (js ''ab'') (js ''k=ab'')]
                      [Property (js ''k'') (js ''ba'') (js ''k=ba'')]))"
  by code_simp

text \<open>
  Claim C3, amended. Swapping the two inputs maps the rows one to one, key by key: an
  added row becomes the removed row of the same rendered line and conversely, an
  unchanged row is the same row, and a modified row stays modified with its two rendered
  lines exchanged and its two segment sequences exchanged in their characters and in
  their number of unchanged segments; removed segments stand only on the left and added
  segments only on the right.
\<close>

theorem compare_swap_symmetry:
  "list_all2 row_swapped (DiffEngine_compare args) (DiffEngine_compare (swapArgs args))"
proof -
  let ?left = "leftEntries_of args" and ?right = "rightEntries_of args"
  let ?ft = "args_fileType args"
  let ?ks = "sortedKeys ?left ?right"
  have rows: "DiffEngine_compare args = map (compare_row ?left ?right ?ft) ?ks"
    by (simp add: DiffEngine_compare_def compare_maps_map)
  have "sortedKeys ?right ?left = ?ks"
    by (rule sortedKeys_commute)
  then have rows': "DiffEngine_compare (swapArgs args) = map (compare_row ?right ?left ?ft) ?ks"
    by (simp add: DiffEngine_compare_def compare_maps_map)
  have "list_all2 row_swapped (map (compare_row ?left ?right ?ft) ?ks)
          (map (compare_row ?right ?left ?ft) ?ks)"
    by (simp add: list_all2_map1 list_all2_map2 list_all2_same compare_row_swapped)
  with rows rows' show ?thesis
    by simp
qed

theorem compare_swap_symmetry_witness:
  "list_all2 row_swapped
     (DiffEngine_compare
        (PropertiesArgs
           [Property (js ''k'') (js ''ab'') (js ''k=ab''), Property (js ''u'') (js ''1'') (js ''u=1'')]
           [Property (js ''k'') (js ''ba'') (js ''k=ba''), Property (js ''u'') (js ''1'') (js ''u=1''),
            Property (js ''z'') [] (js ''z='')]))
     (DiffEngine_compare (swapArgs
        (PropertiesArgs
           [Property (js ''k'') (js ''ab'') (js ''k=ab''), Property (js ''u'') (js ''1'') (js ''u=1'')]
           [Property (js ''k'') (js ''ba'') (js ''k=ba''), Property (js ''u'') (js ''1'') (js ''u=1''),
            Property (js ''z'') [] (js ''z='')]))) \<and>
   map row_status (DiffEngine_compare
        (PropertiesArgs
           [Property (js ''k'') (js ''ab'') (js ''k=ab''), Property (js ''u'') (js ''1'') (js ''u=1'')]
           [Property (js ''k'') (js ''ba'') (js ''k=ba''), Property (js ''u'') (js ''1'') (js ''u=1''),
            Property (js ''z'') [] (js ''z='')])) = [Modified, Unchanged, Added] \<and>
   map row_status (DiffEngine_compare (swapArgs
        (PropertiesArgs
           [Property (js ''k'') (js ''ab'') (js ''k=ab''), Property (js ''u'') (js ''1'') (js ''u=1'')]
           [Property (js ''k'') (js ''ba'') (js ''k=ba''), Property (js ''u'') (js ''1'') (js ''u=1''),
            Property (js ''z'') [] (js ''z='')]))) = [Modified, Unchanged, Removed]"
proof -
  have statuses: "map row_status (DiffEngine_compare
        (PropertiesArgs
           [Property (js ''k'') (js ''ab'') (js ''k=ab''), Property (js ''u'') (js ''1'') (js ''u=1'')]
           [Property (js ''k'') (js ''ba'') (js ''k=ba''), Property (js ''u'') (js ''1'') (js ''u=1''),
            Property (js ''z'') [] (js ''z='')])) = [Modified, Unchanged, Added]"
    by code_simp
  have swapped: "map row_status (DiffEngine_compare (swapArgs
        (PropertiesArgs
           [Property (js ''k'') (js ''ab'') (js ''k=ab''), Property (js ''u'') (js ''1'') (js ''u=1'')]
           [Property (js ''k'') (js ''ba'') (js ''k=ba''), Property (js ''u'') (js ''1'') (js ''u=1''),
            Property (js ''z'') [] (js ''z='')]))) = [Modified, Unchanged, Removed]"
    by code_simp
  from compare_swap_symmetry statuses swapped show ?thesis
    by (intro conjI)
qed


end
